theory Spec2Isabelle
  imports Main "HOL-Library.Word" "HOL-Library.List_Lexorder"
begin

unbundle bit_operations_syntax

section \<open>Bytes, machine integers and errors\<close>

text \<open>
  Go's \<open>[]byte\<close> is a list of 8-bit words; \<open>uint64\<close> and \<open>int64\<close> are 64-bit words
  (read with \<open>unat\<close>/\<open>uint\<close> and \<open>sint\<close>). Byte strings are compared with the
  lexicographic order of \<open>HOL-Library.List_Lexorder\<close> over the unsigned order of bytes,
  which is the bytewise comparison the key-value engine sorts its keys with.
\<close>

type_synonym byte = "8 word"
type_synonym bytes = "byte list"
type_synonym uint64 = "64 word"
type_synonym int64 = "64 word"
type_synonym timestamp = int

text \<open>
  Errors are values. \<open>Panic\<close> is a Go panic, \<open>NotFoundError\<close> and
  \<open>DuplicateError\<close> are the two typed errors of package \<open>database\<close>, and
  \<open>Errorf\<close> is any error built with \<open>fmt.Errorf\<close> (the message names the site).
\<close>

datatype error =
    Panic string
  | NotFoundError string
  | DuplicateError string
  | Errorf string

text \<open>\<open>chainhash.HashSize\<close> and the constants of \<open>level.go\<close> and \<open>tbc.go\<close>.\<close>

definition HashSize :: nat where
  "HashSize = 32"

definition bhsLastKey :: bytes where
  "bhsLastKey = [0x6c, 0x61, 0x73, 0x74]"

definition defaultPendingBlocks :: nat where
  "defaultPendingBlocks = 128"

subsection \<open>\<open>encoding/binary\<close>: big-endian 64-bit integers\<close>

text \<open>
  \<open>binary.BigEndian.PutUint64(b, v)\<close> stores \<open>byte(v >> 56)\<close>, ..., \<open>byte(v)\<close> in
  \<open>b[0]\<close>, ..., \<open>b[7]\<close>; the model returns the eight bytes written.
  \<open>binary.BigEndian.Uint64(b)\<close> reads them back and panics when \<open>b\<close> is shorter
  than eight bytes.
\<close>

definition PutUint64 :: "uint64 \<Rightarrow> bytes" where
  "PutUint64 v =
     [ucast (drop_bit 56 v), ucast (drop_bit 48 v), ucast (drop_bit 40 v),
      ucast (drop_bit 32 v), ucast (drop_bit 24 v), ucast (drop_bit 16 v),
      ucast (drop_bit 8 v), ucast v]"

definition Uint64_of :: "bytes \<Rightarrow> uint64" where
  "Uint64_of b =
     ucast (b ! 7) OR push_bit 8 (ucast (b ! 6)) OR push_bit 16 (ucast (b ! 5)) OR
     push_bit 24 (ucast (b ! 4)) OR push_bit 32 (ucast (b ! 3)) OR
     push_bit 40 (ucast (b ! 2)) OR push_bit 48 (ucast (b ! 1)) OR
     push_bit 56 (ucast (b ! 0))"

definition Uint64 :: "bytes \<Rightarrow> error + uint64" where
  "Uint64 b = (if length b < 8 then Inl (Panic ''index out of range'') else Inr (Uint64_of b))"

text \<open>
  The \<open>k\<close> base-256 digits of a natural number, most significant first: what
  \<open>PutUint64\<close> writes, read as numbers.
\<close>

fun digits :: "nat \<Rightarrow> nat \<Rightarrow> nat list" where
  "digits 0 x = []"
| "digits (Suc k) x = (x div 256 ^ k mod 256) # digits k x"

text \<open>
  Go's builtin \<open>copy(dst, src)\<close> overwrites the first \<open>min (len dst) (len src)\<close>
  bytes of \<open>dst\<close>; the model returns the new contents of \<open>dst\<close>.
\<close>

definition copy :: "bytes \<Rightarrow> bytes \<Rightarrow> bytes" where
  "copy dst src = take (length dst) src @ drop (length src) dst"

subsection \<open>\<open>heightHashToKey\<close> and \<open>keyToHeightHash\<close>\<close>

text \<open>
  \<open>heightHashToKey\<close> panics on a hash that is not \<open>HashSize\<close> bytes long; otherwise it
  allocates \<open>8 + 1 + HashSize\<close> zero bytes, writes the height into \<open>key[0:8]\<close> and
  copies the hash to \<open>key[9:]\<close>.
\<close>

definition heightHashToKey :: "uint64 \<Rightarrow> bytes \<Rightarrow> error + bytes" where
  "heightHashToKey height hash =
     (if length hash \<noteq> HashSize then Inl (Panic ''invalid hash size'')
      else
        let key0 = replicate (8 + 1 + HashSize) (0 :: byte);
            key1 = copy (take 8 key0) (PutUint64 height) @ drop 8 key0;
            key2 = take 9 key1 @ copy (drop 9 key1) hash
        in Inr key2)"

definition keyToHeightHash :: "bytes \<Rightarrow> error + (uint64 \<times> bytes)" where
  "keyToHeightHash key =
     (if length key \<noteq> 8 + 1 + HashSize then Inl (Panic ''invalid key size'')
      else
        let hash = copy (replicate HashSize (0 :: byte)) (drop 9 key)
        in (case Uint64 (take 8 key) of
              Inl e \<Rightarrow> Inl e
            | Inr height \<Rightarrow> Inr (height, hash)))"

section \<open>The store: three ordered namespaces\<close>

text \<open>
  One namespace of the embedded key-value engine is a list of key/value pairs kept in
  ascending key order with no key twice, which is what a forward iterator yields.
  \<open>db_put\<close> replaces the value of a key that is present, \<open>db_delete\<close> of an absent key
  changes nothing, and a batch is a sequence of puts and deletes applied in order.
\<close>

type_synonym db = "(bytes \<times> bytes) list"

fun db_put :: "bytes \<Rightarrow> bytes \<Rightarrow> db \<Rightarrow> db" where
  "db_put k v [] = [(k, v)]"
| "db_put k v ((k', v') # d) =
     (if k < k' then (k, v) # (k', v') # d
      else if k = k' then (k, v) # d
      else (k', v') # db_put k v d)"

definition db_delete :: "bytes \<Rightarrow> db \<Rightarrow> db" where
  "db_delete k d = filter (\<lambda>kv. fst kv \<noteq> k) d"

definition db_get :: "db \<Rightarrow> bytes \<Rightarrow> bytes option" where
  "db_get d k = map_of d k"

definition db_has :: "db \<Rightarrow> bytes \<Rightarrow> bool" where
  "db_has d k = (map_of d k \<noteq> None)"

datatype batch_op = BatchPut bytes bytes | BatchDelete bytes

fun db_apply :: "db \<Rightarrow> batch_op \<Rightarrow> db" where
  "db_apply d (BatchPut k v) = db_put k v d"
| "db_apply d (BatchDelete k) = db_delete k d"

definition db_write :: "batch_op list \<Rightarrow> db \<Rightarrow> db" where
  "db_write batch d = foldl db_apply d batch"

definition db_ok :: "db \<Rightarrow> bool" where
  "db_ok d = sorted_wrt (<) (map fst d)"

text \<open>
  \<open>l.pool\<close> maps the name of a namespace to its database. A transaction works on a copy
  of the namespace, \<open>Commit\<close> installs the copy and \<open>Discard\<close> drops it. Every call into
  the engine can fail: \<open>faults\<close> says, for each namespace and call, which error the
  engine returns, if any (each function below makes each call at most once per namespace).
\<close>

datatype pool = BlockHeadersDB | BlocksMissingDB | BlocksDB

type_synonym store = "pool \<Rightarrow> db"

datatype call = OpenTransaction | Has | Get | Put | Delete | Write | Commit

datatype ldb_error = ErrNotFound | ErrIO

type_synonym faults = "pool \<Rightarrow> call \<Rightarrow> ldb_error option"

definition no_faults :: faults where
  "no_faults = (\<lambda>p c. None)"

definition store_ok :: "store \<Rightarrow> bool" where
  "store_ok s = (db_ok (s BlockHeadersDB) \<and> db_ok (s BlocksMissingDB) \<and> db_ok (s BlocksDB))"

text \<open>Every key of the missing-blocks namespace has the length of a height/hash key.\<close>

definition missing_keys_ok :: "db \<Rightarrow> bool" where
  "missing_keys_ok d = list_all (\<lambda>kv. length (fst kv) = 8 + 1 + HashSize) d"

section \<open>Records of package \<open>tbcd\<close>\<close>

record BlockHeader =
  Hash :: bytes
  Height :: uint64
  Header :: bytes
  CreatedAt :: timestamp

record Block =
  Hash :: bytes
  Block :: bytes

record BlockIdentifier =
  Height :: uint64
  Hash :: bytes

record Peer =
  Host :: string
  Port :: string
  LastAt :: timestamp
  CreatedAt :: timestamp

text \<open>
  \<open>encoding/json\<close> is outside the repository: the codec is a parameter. \<open>None\<close> is a
  marshalling or unmarshalling error.
\<close>

record json =
  MarshalBlockHeader :: "BlockHeader \<Rightarrow> bytes option"
  UnmarshalBlockHeader :: "bytes \<Rightarrow> BlockHeader option"
  MarshalBlock :: "Block \<Rightarrow> bytes option"

text \<open>
  Calls into a transaction. A read fails with \<open>ErrNotFound\<close> exactly when the key is
  absent, or with the injected I/O error. Whether the engine reports the delete of an
  absent key as \<open>ErrNotFound\<close> is left open: \<open>faults p Delete = Some ErrNotFound\<close> is
  the engine that does.
\<close>

definition tx_get :: "faults \<Rightarrow> pool \<Rightarrow> db \<Rightarrow> bytes \<Rightarrow> ldb_error + bytes" where
  "tx_get io p tx k =
     (case io p Get of
        Some ErrIO \<Rightarrow> Inl ErrIO
      | _ \<Rightarrow> (case db_get tx k of None \<Rightarrow> Inl ErrNotFound | Some v \<Rightarrow> Inr v))"

definition tx_has :: "faults \<Rightarrow> pool \<Rightarrow> db \<Rightarrow> bytes \<Rightarrow> ldb_error + bool" where
  "tx_has io p tx k =
     (case io p Has of
        Some e \<Rightarrow> Inl e
      | None \<Rightarrow> Inr (db_has tx k))"

definition tx_delete :: "faults \<Rightarrow> pool \<Rightarrow> db \<Rightarrow> bytes \<Rightarrow> ldb_error + db" where
  "tx_delete io p tx k =
     (case io p Delete of
        Some ErrIO \<Rightarrow> Inl ErrIO
      | Some ErrNotFound \<Rightarrow> (if db_has tx k then Inr (db_delete k tx) else Inl ErrNotFound)
      | None \<Rightarrow> Inr (db_delete k tx))"

section \<open>\<open>level.go\<close>: the database operations\<close>

subsection \<open>\<open>BlockHeaderByHash\<close> and \<open>BlockHeadersBest\<close>\<close>


definition BlockHeadersBest :: "json \<Rightarrow> faults \<Rightarrow> store \<Rightarrow> error + BlockHeader list" where
  "BlockHeadersBest j io s =
     (case io BlockHeadersDB OpenTransaction of
        Some e \<Rightarrow> Inl (Errorf ''block headers best transaction'')
      | None \<Rightarrow>
          (case tx_get io BlockHeadersDB (s BlockHeadersDB) bhsLastKey of
             Inl ErrNotFound \<Rightarrow> Inr []
           | Inl ErrIO \<Rightarrow> Inl (Errorf ''block headers best'')
           | Inr v \<Rightarrow>
               (case UnmarshalBlockHeader j v of
                  None \<Rightarrow> Inl (Errorf ''block headers best unmarshal'')
                | Some bh \<Rightarrow>
                    (case io BlockHeadersDB Commit of
                       Some e \<Rightarrow> Inl (Errorf ''block headers best'')
                     | None \<Rightarrow> Inr [bh]))))"

subsection \<open>\<open>BlockHeadersInsert\<close>\<close>

text \<open>
  The loop over the batch. \<open>k\<close> is the index of the next header, \<open>clock k\<close> is what
  \<open>time.Now()\<close> returns in iteration \<open>k\<close>, and the accumulator holds the two batches and
  \<open>lastRecord\<close>. A header at height 0 gets no missing-block record;
  \<open>heightHashToKey\<close> can panic and \<open>json.Marshal\<close> can fail, and either ends the loop.
\<close>

fun insert_loop ::
  "json \<Rightarrow> (nat \<Rightarrow> timestamp) \<Rightarrow> nat \<Rightarrow> BlockHeader list \<Rightarrow>
   batch_op list \<times> batch_op list \<times> bytes \<Rightarrow> error + (batch_op list \<times> batch_op list \<times> bytes)"
where
  "insert_loop j clock k [] acc = Inr acc"
| "insert_loop j clock k (bh # bhs) (bmBatch, bhsBatch, lastRecord) =
     (case (if BlockHeader.Height bh \<noteq> 0
            then (case heightHashToKey (BlockHeader.Height bh) (BlockHeader.Hash bh) of
                    Inl e \<Rightarrow> Inl e
                  | Inr key \<Rightarrow> Inr (bmBatch @ [BatchPut key []]))
            else Inr bmBatch) of
        Inl e \<Rightarrow> Inl e
      | Inr bmBatch' \<Rightarrow>
          (case MarshalBlockHeader j (bh\<lparr>BlockHeader.CreatedAt := clock k\<rparr>) of
             None \<Rightarrow> Inl (Errorf ''json marshal'')
           | Some bhj \<Rightarrow>
               insert_loop j clock (Suc k) bhs
                 (bmBatch', bhsBatch @ [BatchPut (BlockHeader.Hash bh) bhj], bhj)))"

text \<open>
  The result is the returned error (or nothing) and the store after the call. Both
  transactions are discarded on every early return; the missing-blocks transaction
  commits first, so a failing commit of the block headers leaves its writes in place.
\<close>

definition BlockHeadersInsert ::
  "json \<Rightarrow> faults \<Rightarrow> (nat \<Rightarrow> timestamp) \<Rightarrow> store \<Rightarrow> BlockHeader list \<Rightarrow> (error + unit) \<times> store"
where
  "BlockHeadersInsert j io clock s bhs =
     (if bhs = [] then (Inl (Errorf ''block headers insert: no block headers to insert''), s)
      else
     (case io BlockHeadersDB OpenTransaction of
        Some e \<Rightarrow> (Inl (Errorf ''block headers open transaction''), s)
      | None \<Rightarrow>
     (let bhsTx = s BlockHeadersDB in
     (case io BlocksMissingDB OpenTransaction of
        Some e \<Rightarrow> (Inl (Errorf ''blocks missing open transaction''), s)
      | None \<Rightarrow>
     (let bmTx = s BlocksMissingDB in
     (case tx_has io BlockHeadersDB bhsTx (BlockHeader.Hash (hd bhs)) of
        Inl e \<Rightarrow> (Inl (Errorf ''block headers insert has''), s)
      | Inr True \<Rightarrow> (Inl (DuplicateError ''block headers insert duplicate''), s)
      | Inr False \<Rightarrow>
     (case insert_loop j clock 0 bhs ([], [], []) of
        Inl e \<Rightarrow> (Inl e, s)
      | Inr (bmBatch, bhsBatch, lastRecord) \<Rightarrow>
     (let bhsBatch' = bhsBatch @ [BatchPut bhsLastKey lastRecord] in
     (case io BlocksMissingDB Write of
        Some e \<Rightarrow> (Inl (Errorf ''blocks missing insert''), s)
      | None \<Rightarrow>
     (let bmTx' = db_write bmBatch bmTx in
     (case io BlockHeadersDB Write of
        Some e \<Rightarrow> (Inl (Errorf ''block headers insert''), s)
      | None \<Rightarrow>
     (let bhsTx' = db_write bhsBatch' bhsTx in
     (case io BlocksMissingDB Commit of
        Some e \<Rightarrow> (Inl (Errorf ''blocks missing commit''), s)
      | None \<Rightarrow>
     (let s1 = s(BlocksMissingDB := bmTx') in
     (case io BlockHeadersDB Commit of
        Some e \<Rightarrow> (Inl (Errorf ''block headers commit''), s1)
      | None \<Rightarrow> (Inr (), s1(BlockHeadersDB := bhsTx')))))))))))))))))"

subsection \<open>\<open>BlocksMissing\<close>\<close>

text \<open>
  The iterator loop: \<open>x\<close> counts the entries appended so far and the test
  \<open>x >= count\<close> comes after the append. \<open>count\<close> is a Go \<open>int\<close>; \<open>x\<close> never exceeds the
  number of stored entries, so unbounded integers model both.
\<close>

fun missing_loop ::
  "int \<Rightarrow> int \<Rightarrow> db \<Rightarrow> BlockIdentifier list \<Rightarrow> error + BlockIdentifier list"
where
  "missing_loop count x [] bis = Inr bis"
| "missing_loop count x (kv # it) bis =
     (case keyToHeightHash (fst kv) of
        Inl e \<Rightarrow> Inl e
      | Inr (height, hash) \<Rightarrow>
          let bis' = bis @ [\<lparr>BlockIdentifier.Height = height, BlockIdentifier.Hash = hash\<rparr>];
              x' = x + 1
          in if x' \<ge> count then Inr bis' else missing_loop count x' it bis')"

text \<open>\<open>make([]tbcd.BlockIdentifier, 0, count)\<close> panics on a negative capacity.\<close>

definition BlocksMissing :: "faults \<Rightarrow> store \<Rightarrow> int \<Rightarrow> error + BlockIdentifier list" where
  "BlocksMissing io s count =
     (case io BlocksMissingDB OpenTransaction of
        Some e \<Rightarrow> Inl (Errorf ''blocks missing open transaction'')
      | None \<Rightarrow>
          if count < 0 then Inl (Panic ''makeslice: cap out of range'')
          else
            (case missing_loop count 0 (s BlocksMissingDB) [] of
               Inl e \<Rightarrow> Inl e
             | Inr bis \<Rightarrow>
                 (case io BlocksMissingDB Commit of
                    Some e \<Rightarrow> Inl (Errorf ''blocks missing commit'')
                  | None \<Rightarrow> Inr bis)))"

subsection \<open>\<open>BlockInsert\<close>\<close>

text \<open>
  The result is the returned height or error (Go returns \<open>-1\<close> beside every error), the
  store after the call, and the lines logged at error level (the configured level is
  \<open>INFO\<close>, so the trace and debug lines are not emitted). The missing-block key is built
  from the height and hash of the stored header record. The three transactions commit in
  the order blocks, blocks missing, block headers; a commit that fails leaves the
  earlier commits in place. The returned height is \<open>int64(bh.Height)\<close>.
\<close>

definition BlockInsert ::
  "json \<Rightarrow> faults \<Rightarrow> store \<Rightarrow> Block \<Rightarrow> (error + int64) \<times> store \<times> string list"
where
  "BlockInsert j io s b =
     (case io BlockHeadersDB OpenTransaction of
        Some e \<Rightarrow> (Inl (Errorf ''block headers open transaction''), s, [])
      | None \<Rightarrow>
     (let bhsTx = s BlockHeadersDB in
     (case io BlocksMissingDB OpenTransaction of
        Some e \<Rightarrow> (Inl (Errorf ''blocks missing open transaction''), s, [])
      | None \<Rightarrow>
     (let bmTx = s BlocksMissingDB in
     (case io BlocksDB OpenTransaction of
        Some e \<Rightarrow> (Inl (Errorf ''blocks open transaction''), s, [])
      | None \<Rightarrow>
     (let bTx = s BlocksDB in
     (case tx_get io BlockHeadersDB bhsTx (Block.Hash b) of
        Inl ErrNotFound \<Rightarrow> (Inl (NotFoundError ''block header not found''), s, [])
      | Inl ErrIO \<Rightarrow> (Inl (Errorf ''block insert block header''), s, [])
      | Inr bhj \<Rightarrow>
     (case UnmarshalBlockHeader j bhj of
        None \<Rightarrow> (Inl (Errorf ''block insert unmarshal''), s, [])
      | Some bh \<Rightarrow>
     (case heightHashToKey (BlockHeader.Height bh) (BlockHeader.Hash bh) of
        Inl e \<Rightarrow> (Inl e, s, [])
      | Inr key \<Rightarrow>
     (case tx_delete io BlocksMissingDB bmTx key of
        Inl ErrIO \<Rightarrow> (Inl (Errorf ''block insert delete from missing''), s, [])
      | r \<Rightarrow>
     (let bmTx' = (case r of Inr tx \<Rightarrow> tx | Inl e \<Rightarrow> bmTx);
          logged = (case r of Inr tx \<Rightarrow> [] | Inl e \<Rightarrow> [''block insert delete from missing''])
      in
     (case MarshalBlock j b of
        None \<Rightarrow> (Inl (Errorf ''block insert marshal''), s, logged)
      | Some bj \<Rightarrow>
     (case io BlocksDB Put of
        Some e \<Rightarrow> (Inl (Errorf ''block insert put''), s, logged)
      | None \<Rightarrow>
     (let bTx' = db_put (Block.Hash b) bj bTx in
     (case io BlocksDB Commit of
        Some e \<Rightarrow> (Inl (Errorf ''block commit''), s, logged)
      | None \<Rightarrow>
     (let s1 = s(BlocksDB := bTx') in
     (case io BlocksMissingDB Commit of
        Some e \<Rightarrow> (Inl (Errorf ''blocks missing commit''), s1, logged)
      | None \<Rightarrow>
     (let s2 = s1(BlocksMissingDB := bmTx') in
     (case io BlockHeadersDB Commit of
        Some e \<Rightarrow> (Inl (Errorf ''blocks headers commit''), s2, logged)
      | None \<Rightarrow>
          (Inr (ucast (BlockHeader.Height bh)), s2(BlockHeadersDB := bhsTx), logged)
     )))))))))))))))))))"

subsection \<open>The peer store\<close>

text \<open>
  The three peer operations of \<open>level.go\<close> touch no namespace: \<open>PeersInsert\<close> and
  \<open>PeerDelete\<close> return an error and \<open>PeersRandom\<close> returns an empty list.
\<close>

definition PeersInsert :: "store \<Rightarrow> Peer list \<Rightarrow> (error + unit) \<times> store" where
  "PeersInsert s peers = (Inl (Errorf ''PeersInsert''), s)"

definition PeerDelete :: "store \<Rightarrow> string \<Rightarrow> string \<Rightarrow> (error + unit) \<times> store" where
  "PeerDelete s host port = (Inl (Errorf ''PeerDelete''), s)"

definition PeersRandom :: "store \<Rightarrow> int \<Rightarrow> (error + Peer list) \<times> store" where
  "PeersRandom s count = (Inr [], s)"

definition empty_store :: store where
  "empty_store = (\<lambda>p. [])"

text \<open>
  The stores the two writers can produce from an empty database, whatever the codec, the
  clock and the faults of the engine.
\<close>

inductive reachable_store :: "store \<Rightarrow> bool" where
  store_fresh: "reachable_store empty_store"
| store_headers: "reachable_store s \<Longrightarrow> reachable_store (snd (BlockHeadersInsert j io clock s bhs))"
| store_block: "reachable_store s \<Longrightarrow> reachable_store (fst (snd (BlockInsert j io s b)))"

section \<open>\<open>tbc.go\<close>: the header chain manager\<close>

text \<open>
  \<open>wire.BlockHeader\<close> of btcd. Its hash, its serialisation and its deserialisation are
  btcd's and are parameters of the model; \<open>None\<close> is an error.
\<close>

record wire_BlockHeader =
  Version :: "32 word"
  PrevBlock :: bytes
  MerkleRoot :: bytes
  Timestamp :: timestamp
  Bits :: "32 word"
  Nonce :: "32 word"

record btcd =
  BlockHash :: "wire_BlockHeader \<Rightarrow> bytes"
  Serialize :: "wire_BlockHeader \<Rightarrow> bytes option"
  Deserialize :: "bytes \<Rightarrow> wire_BlockHeader option"









section \<open>\<open>tbc.go\<close>: the pending-blocks cache\<close>

text \<open>
  \<open>s.peers\<close> is a map from address to peer; of a peer only whether it is connected
  matters here. \<open>s.blocks\<close>, the pending map, is an association list with no hash
  twice, so that \<open>len(s.blocks)\<close> is its length. Time is in seconds.
\<close>

record peer =
  conn :: bool

record blockPeer =
  expire :: timestamp
  peer :: string

record Server =
  peers :: "string \<rightharpoonup> peer"
  blocks :: "(string \<times> blockPeer) list"

datatype sched_error =
    errCacheFull | errNoPeers | errAlreadyCached | errExpiredPeer | errWrite

definition NewServer :: Server where
  "NewServer = \<lparr>peers = Map.empty, blocks = []\<rparr>"

definition blockPeerAdd :: "timestamp \<Rightarrow> Server \<Rightarrow> string \<Rightarrow> string \<Rightarrow> sched_error + Server" where
  "blockPeerAdd now s hash p =
     (if peers s p = None then Inl errExpiredPeer
      else if map_of (blocks s) hash \<noteq> None then Inl errAlreadyCached
      else Inr (s\<lparr>blocks := blocks s @ [(hash, \<lparr>expire = now + 37, peer = p\<rparr>)]\<rparr>))"

text \<open>
  \<open>blockPeerExpire\<close> deletes every entry with \<open>now.After(v.expire)\<close> and returns the
  number of entries left; closing the connection of the slow peer is a network effect.
\<close>

definition blockPeerExpire :: "timestamp \<Rightarrow> Server \<Rightarrow> Server \<times> nat" where
  "blockPeerExpire now s =
     (let s' = s\<lparr>blocks := filter (\<lambda>kv. \<not> now > expire (snd kv)) (blocks s)\<rparr>
      in (s', length (blocks s')))"

text \<open>
  The loop of \<open>randPeerWrite\<close> over \<open>s.peers\<close>. Go iterates a map in an order of the
  runtime's choosing: \<open>order\<close> is that order. The loop skips a peer that is not
  connected and a peer for which \<open>blockPeerAdd\<close> fails, and stops at the first success.
\<close>

fun rand_loop :: "timestamp \<Rightarrow> Server \<Rightarrow> string \<Rightarrow> string list \<Rightarrow> (string \<times> Server) option" where
  "rand_loop now s hash [] = None"
| "rand_loop now s hash (k # ks) =
     (case peers s k of
        None \<Rightarrow> rand_loop now s hash ks
      | Some v \<Rightarrow>
          if \<not> conn v then rand_loop now s hash ks
          else
            (case blockPeerAdd now s hash k of
               Inl e \<Rightarrow> rand_loop now s hash ks
             | Inr s' \<Rightarrow> Some (k, s')))"

text \<open>\<open>write_ok p\<close> says whether \<open>p.write(msg)\<close> succeeds for the chosen peer.\<close>

definition randPeerWrite ::
  "timestamp \<Rightarrow> string list \<Rightarrow> (string \<Rightarrow> bool) \<Rightarrow> Server \<Rightarrow> string \<Rightarrow> sched_error option \<times> Server"
where
  "randPeerWrite now order write_ok s hash =
     (if length (blocks s) \<ge> defaultPendingBlocks then (Some errCacheFull, s)
      else
        (case rand_loop now s hash order of
           None \<Rightarrow> (Some errNoPeers, s)
         | Some (p, s') \<Rightarrow> (if write_ok p then None else Some errWrite, s')))"

text \<open>\<open>handleBlock\<close> removes the received block from the pending map: \<open>delete(s.blocks, bhs)\<close>.\<close>

definition handleBlock_delete :: "Server \<Rightarrow> string \<Rightarrow> Server" where
  "handleBlock_delete s bhs = s\<lparr>blocks := filter (\<lambda>kv. fst kv \<noteq> bhs) (blocks s)\<rparr>"

text \<open>
  The part of \<open>randPeerWrite\<close> after the test of the cache size: the loop over the peers
  and the write to the chosen peer.
\<close>

definition randPeerWrite_select ::
  "timestamp \<Rightarrow> string list \<Rightarrow> (string \<Rightarrow> bool) \<Rightarrow> Server \<Rightarrow> string \<Rightarrow> sched_error option \<times> Server"
where
  "randPeerWrite_select now order write_ok s hash =
     (case rand_loop now s hash order of
        None \<Rightarrow> (Some errNoPeers, s)
      | Some (p, s') \<Rightarrow> (if write_ok p then None else Some errWrite, s'))"

text \<open>
  The states of the server, each with the number of calls of \<open>randPeerWrite\<close> that have
  passed the test of the cache size and not yet run the loop. The server starts with
  \<open>NewServer\<close>; the peer manager changes \<open>s.peers\<close> at will. \<open>checkBlockCache\<close> holds
  \<open>s.mtx\<close> around \<open>downloadBlocks\<close>, and \<open>blockPeerExpire\<close> and \<open>handleBlock\<close> take it
  for their deletions, so a call of \<open>randPeerWrite\<close> from \<open>checkBlockCache\<close>, an expiry
  and a deletion are one step each. \<open>handleInv\<close> runs in a goroutine of its own for
  every \<open>inv\<close> message and calls \<open>downloadBlocks\<close>, and so \<open>randPeerWrite\<close>, without the
  mutex: between the test and the loop of such a call other steps can run.
\<close>

inductive reachable :: "Server \<Rightarrow> nat \<Rightarrow> bool" where
  reach_new: "reachable NewServer 0"
| reach_peers: "reachable s n \<Longrightarrow> reachable (s\<lparr>peers := ps\<rparr>) n"
| reach_write: "reachable s n \<Longrightarrow> reachable (snd (randPeerWrite now order write_ok s hash)) n"
| reach_inv_test:
    "reachable s n \<Longrightarrow> \<not> length (blocks s) \<ge> defaultPendingBlocks \<Longrightarrow> reachable s (Suc n)"
| reach_inv_loop:
    "reachable s (Suc n) \<Longrightarrow> reachable (snd (randPeerWrite_select now order write_ok s hash)) n"
| reach_expire: "reachable s n \<Longrightarrow> reachable (fst (blockPeerExpire now s)) n"
| reach_block: "reachable s n \<Longrightarrow> reachable (handleBlock_delete s bhs) n"

text \<open>Every operation of a batch built by the insert loop puts a height/hash key.\<close>

definition key_puts :: "batch_op list \<Rightarrow> bool" where
  "key_puts batch = list_all (\<lambda>op. \<exists>k v. op = BatchPut k v \<and> length k = 8 + 1 + HashSize) batch"

text \<open>The block identifier that the iterator loop reads from a well-formed key.\<close>

definition key_identifier :: "bytes \<times> bytes \<Rightarrow> BlockIdentifier" where
  "key_identifier kv =
     \<lparr>BlockIdentifier.Height = Uint64_of (take 8 (fst kv)), BlockIdentifier.Hash = drop 9 (fst kv)\<rparr>"

text \<open>
  \<open>BlockHeadersInsert\<close> sets \<open>CreatedAt\<close> of every header of the caller's slice in
  place: \<open>stamp clock k bhs\<close> is the slice after the loop that started at index \<open>k\<close>.
\<close>

fun stamp :: "(nat \<Rightarrow> timestamp) \<Rightarrow> nat \<Rightarrow> BlockHeader list \<Rightarrow> BlockHeader list" where
  "stamp clock k [] = []"
| "stamp clock k (bh # bhs) = bh\<lparr>BlockHeader.CreatedAt := clock k\<rparr> # stamp clock (Suc k) bhs"


text \<open>The two batches the loop builds from a batch of headers.\<close>

definition missing_puts :: "BlockHeader list \<Rightarrow> (bytes \<times> bytes) list" where
  "missing_puts bhs =
     map (\<lambda>bh. (PutUint64 (BlockHeader.Height bh) @ [0] @ BlockHeader.Hash bh, []))
       (filter (\<lambda>bh. BlockHeader.Height bh \<noteq> 0) bhs)"

definition header_puts :: "json \<Rightarrow> BlockHeader list \<Rightarrow> (bytes \<times> bytes) list" where
  "header_puts j bhs = map (\<lambda>bh. (BlockHeader.Hash bh, the (MarshalBlockHeader j bh))) bhs"

definition as_batch :: "(bytes \<times> bytes) list \<Rightarrow> batch_op list" where
  "as_batch kvs = map (\<lambda>kv. BatchPut (fst kv) (snd kv)) kvs"

text \<open>
  The insert list that the loop of \<open>handleHeaders\<close> builds from a batch that connects,
  starting at \<open>height\<close>.
\<close>

fun assigned :: "btcd \<Rightarrow> uint64 \<Rightarrow> wire_BlockHeader list \<Rightarrow> BlockHeader list" where
  "assigned w height [] = []"
| "assigned w height (m # ms) =
     \<lparr>BlockHeader.Hash = BlockHash w m, BlockHeader.Height = height,
      BlockHeader.Header = the (Serialize w m), BlockHeader.CreatedAt = 0\<rparr> #
     assigned w (height + 1) ms"


section \<open>Sample data\<close>

text \<open>
  A small codec and sample headers, to instantiate the theorems at concrete inputs. A
  record is the height, the 32-byte hash and the raw header; the codec drops
  \<open>CreatedAt\<close>.
\<close>

definition sample_json :: json where
  "sample_json =
     \<lparr>MarshalBlockHeader =
        (\<lambda>bh. Some (PutUint64 (BlockHeader.Height bh) @ BlockHeader.Hash bh @ BlockHeader.Header bh)),
      UnmarshalBlockHeader =
        (\<lambda>v. if length v < 40 then None
             else Some \<lparr>BlockHeader.Hash = take 32 (drop 8 v),
                        BlockHeader.Height = Uint64_of (take 8 v),
                        BlockHeader.Header = drop 40 v, BlockHeader.CreatedAt = 0\<rparr>),
      MarshalBlock = (\<lambda>b. Some (Block.Block b))\<rparr>"

definition sample_hash :: "byte \<Rightarrow> bytes" where
  "sample_hash x = x # replicate 31 x"

definition sample_header :: "uint64 \<Rightarrow> byte \<Rightarrow> BlockHeader" where
  "sample_header h x =
     \<lparr>BlockHeader.Hash = sample_hash x, BlockHeader.Height = h,
      BlockHeader.Header = [], BlockHeader.CreatedAt = 0\<rparr>"

definition sample_clock :: "nat \<Rightarrow> timestamp" where
  "sample_clock k = 0"

text \<open>The store after the headers at heights 1 and 2 were inserted into an empty database.\<close>

definition sample_store :: store where
  "sample_store =
     snd (BlockHeadersInsert sample_json no_faults sample_clock empty_store
            [sample_header 1 1, sample_header 2 2])"


definition sample_block :: "byte \<Rightarrow> Block" where
  "sample_block x = \<lparr>Block.Hash = sample_hash x, Block = [1, 2, 3]\<rparr>"

text \<open>A sample of btcd: the hash of a header is its merkle root.\<close>

definition sample_btcd :: btcd where
  "sample_btcd =
     \<lparr>BlockHash = (\<lambda>m. MerkleRoot m),
      Serialize = (\<lambda>m. Some (PrevBlock m @ MerkleRoot m)),
      Deserialize =
        (\<lambda>b. if length b \<noteq> 64 then None
             else Some \<lparr>Version = 0, PrevBlock = take 32 b, MerkleRoot = drop 32 b,
                        Timestamp = 0, Bits = 0, Nonce = 0\<rparr>)\<rparr>"

definition sample_wire :: "byte \<Rightarrow> byte \<Rightarrow> wire_BlockHeader" where
  "sample_wire p x =
     \<lparr>Version = 0, PrevBlock = sample_hash p, MerkleRoot = sample_hash x,
      Timestamp = 0, Bits = 0, Nonce = 0\<rparr>"



text \<open>
  A server with one connected peer and an empty pending map; the same server with \<open>n\<close>
  pending blocks, and with 129; a sample peer record.
\<close>

definition sample_server :: Server where
  "sample_server = NewServer\<lparr>peers := [''10.0.0.1:8333'' \<mapsto> \<lparr>conn = True\<rparr>]\<rparr>"

definition sample_pending :: "nat \<Rightarrow> (string \<times> blockPeer) list" where
  "sample_pending n =
     map (\<lambda>i. (replicate (Suc i) CHR ''x'', \<lparr>expire = 37, peer = ''10.0.0.1:8333''\<rparr>)) [0..<n]"

definition sample_busy_server :: "nat \<Rightarrow> Server" where
  "sample_busy_server n = sample_server\<lparr>blocks := sample_pending n\<rparr>"

definition sample_overfull_server :: Server where
  "sample_overfull_server =
     sample_server\<lparr>blocks := sample_pending 127 @
       [(''h1'', \<lparr>expire = 37, peer = ''10.0.0.1:8333''\<rparr>),
        (''h2'', \<lparr>expire = 37, peer = ''10.0.0.1:8333''\<rparr>)]\<rparr>"

definition sample_peer :: Peer where
  "sample_peer = \<lparr>Host = ''10.0.0.1'', Port = ''8333'', LastAt = 0, Peer.CreatedAt = 0\<rparr>"

section \<open>Big-endian encoding\<close>

lemma bit_byte_at:
  "bit (push_bit k (ucast (ucast (drop_bit k (v :: uint64)) :: byte)) :: uint64) n
     \<longleftrightarrow> k \<le> n \<and> n < k + 8 \<and> bit v n"
  using bit_imp_le_length [of v n] by (auto simp: bit_simps)

lemma bit_byte_at0:
  "bit (ucast (ucast (v :: uint64) :: byte) :: uint64) n \<longleftrightarrow> n < 8 \<and> bit v n"
  by (auto simp: bit_simps)

lemma Uint64_of_PutUint64: "Uint64_of (PutUint64 v) = v"
proof (rule bit_word_eqI)
  fix n assume "n < LENGTH(64)"
  then have n: "n < 64" by simp
  have "bit (Uint64_of (PutUint64 v)) n \<longleftrightarrow>
      (n < 8 \<or> 8 \<le> n \<and> n < 16 \<or> 16 \<le> n \<and> n < 24 \<or> 24 \<le> n \<and> n < 32 \<or>
       32 \<le> n \<and> n < 40 \<or> 40 \<le> n \<and> n < 48 \<or> 48 \<le> n \<and> n < 56 \<or> 56 \<le> n \<and> n < 64) \<and> bit v n"
    unfolding Uint64_of_def PutUint64_def
    by (simp add: bit_or_iff bit_byte_at bit_byte_at0) blast
  also have "\<dots> \<longleftrightarrow> bit v n" using n by arith
  finally show "bit (Uint64_of (PutUint64 v)) n = bit v n" .
qed

lemma piece_same:
  "k + 8 \<le> 64 \<Longrightarrow> ucast (drop_bit k (push_bit k (ucast (x :: byte)) :: uint64)) = x"
  by (rule bit_word_eqI) (auto simp: bit_simps)

lemma piece_lo:
  "j + 8 \<le> k \<Longrightarrow> (ucast (drop_bit k (push_bit j (ucast (x :: byte)) :: uint64)) :: byte) = 0"
  by (rule bit_word_eqI) (auto simp: bit_simps dest: bit_imp_le_length)

lemma piece_hi:
  "k + 8 \<le> j \<Longrightarrow> (ucast (drop_bit k (push_bit j (ucast (x :: byte)) :: uint64)) :: byte) = 0"
  by (rule bit_word_eqI) (auto simp: bit_simps)

lemma piece0_hi:
  "8 \<le> k \<Longrightarrow> (ucast (drop_bit k (ucast (x :: byte) :: uint64)) :: byte) = 0"
  by (rule bit_word_eqI) (auto simp: bit_simps dest: bit_imp_le_length)

lemma piece0_same: "(ucast (ucast (x :: byte) :: uint64) :: byte) = x"
  by (rule bit_word_eqI) (auto simp: bit_simps)

lemma piece_trunc:
  "8 \<le> j \<Longrightarrow> (ucast (push_bit j (ucast (x :: byte)) :: uint64) :: byte) = 0"
  by (rule bit_word_eqI) (auto simp: bit_simps)

lemma PutUint64_Uint64_of:
  assumes "length b = 8"
  shows "PutUint64 (Uint64_of b) = b"
proof -
  obtain b0 b1 b2 b3 b4 b5 b6 b7 where b: "b = [b0, b1, b2, b3, b4, b5, b6, b7]"
    using assms by (auto simp: length_Suc_conv eval_nat_numeral)
  have pieces: "Uint64_of b =
      push_bit 0 (ucast b7) OR push_bit 8 (ucast b6) OR
      push_bit 16 (ucast b5) OR push_bit 24 (ucast b4) OR
      push_bit 32 (ucast b3) OR push_bit 40 (ucast b2) OR
      push_bit 48 (ucast b1) OR push_bit 56 (ucast b0)"
    by (simp add: Uint64_of_def b)
  have "ucast (drop_bit 56 (Uint64_of b)) = b0"
    unfolding pieces drop_bit_or unsigned_or_eq by (simp add: piece_same piece_lo piece_hi piece0_hi piece0_same piece_trunc)
  moreover have "ucast (drop_bit 48 (Uint64_of b)) = b1"
    unfolding pieces drop_bit_or unsigned_or_eq by (simp add: piece_same piece_lo piece_hi piece0_hi piece0_same piece_trunc)
  moreover have "ucast (drop_bit 40 (Uint64_of b)) = b2"
    unfolding pieces drop_bit_or unsigned_or_eq by (simp add: piece_same piece_lo piece_hi piece0_hi piece0_same piece_trunc)
  moreover have "ucast (drop_bit 32 (Uint64_of b)) = b3"
    unfolding pieces drop_bit_or unsigned_or_eq by (simp add: piece_same piece_lo piece_hi piece0_hi piece0_same piece_trunc)
  moreover have "ucast (drop_bit 24 (Uint64_of b)) = b4"
    unfolding pieces drop_bit_or unsigned_or_eq by (simp add: piece_same piece_lo piece_hi piece0_hi piece0_same piece_trunc)
  moreover have "ucast (drop_bit 16 (Uint64_of b)) = b5"
    unfolding pieces drop_bit_or unsigned_or_eq by (simp add: piece_same piece_lo piece_hi piece0_hi piece0_same piece_trunc)
  moreover have "ucast (drop_bit 8 (Uint64_of b)) = b6"
    unfolding pieces drop_bit_or unsigned_or_eq by (simp add: piece_same piece_lo piece_hi piece0_hi piece0_same piece_trunc)
  moreover have "ucast (drop_bit 0 (Uint64_of b)) = b7"
    unfolding pieces drop_bit_or unsigned_or_eq by (simp add: piece_same piece_lo piece_hi piece0_hi piece0_same piece_trunc)
  ultimately show ?thesis
    unfolding PutUint64_def b by simp
qed

lemma digit_step:
  fixes x y m :: nat
  assumes "x < y" "0 < m"
  shows "x div m < y div m \<or> (x div m = y div m \<and> x mod m < y mod m)"
proof (cases "x div m = y div m")
  case True
  then show ?thesis using assms
    by (metis div_mult_mod_eq nat_add_left_cancel_less)
next
  case False
  moreover have "x div m \<le> y div m" using assms by (simp add: div_le_mono)
  ultimately show ?thesis by simp
qed

lemma unat_byte: "unat (ucast (drop_bit k (v :: uint64)) :: byte) = (unat v div 2 ^ k) mod 256"
  unfolding unsigned_ucast_eq unat_drop_bit_eq
  by (simp add: take_bit_eq_mod drop_bit_eq_div)

lemma digits_mono:
  "x mod 256 ^ k < y mod 256 ^ k \<Longrightarrow> digits k x < digits k y"
proof (induction k)
  case 0
  then show ?case by simp
next
  case (Suc k)
  have top: "(z mod 256 ^ Suc k) div 256 ^ k = z div 256 ^ k mod 256" for z :: nat
  proof -
    have "z mod 256 ^ Suc k = z mod (256 ^ k * 256)" by (simp add: mult.commute)
    also have "\<dots> = 256 ^ k * (z div 256 ^ k mod 256) + z mod 256 ^ k" by (rule mod_mult2_eq)
    finally show ?thesis by simp
  qed
  have low: "(z mod 256 ^ Suc k) mod 256 ^ k = z mod 256 ^ k" for z :: nat
    by (simp add: mod_mod_cancel)
  from digit_step [OF Suc.prems, of "256 ^ k"]
  have "x div 256 ^ k mod 256 < y div 256 ^ k mod 256 \<or>
        (x div 256 ^ k mod 256 = y div 256 ^ k mod 256 \<and> x mod 256 ^ k < y mod 256 ^ k)"
    unfolding top low by simp
  then show ?case using Suc.IH by auto
qed

lemma map_unat_less:
  "map unat xs < map unat ys \<Longrightarrow> xs < (ys :: byte list)"
proof (induction xs arbitrary: ys)
  case Nil
  then show ?case by (cases ys) simp_all
next
  case (Cons a xs)
  then show ?case
    by (cases ys) (auto simp: word_less_nat_alt word_unat_eq_iff)
qed

lemma digits_numeral:
  "digits (numeral n) x = (x div 256 ^ pred_numeral n mod 256) # digits (pred_numeral n) x"
  unfolding numeral_eq_Suc [of n] by simp

lemma digits_1: "digits 1 x = [x mod 256]"
  by simp

lemma unat_byte0: "unat (ucast (v :: uint64) :: byte) = unat v mod 256"
  using unat_byte [of 0 v] by simp

lemma unat_drop: "unat (drop_bit k (v :: uint64)) = unat v div 2 ^ k"
  unfolding unat_drop_bit_eq by (simp add: drop_bit_eq_div)

lemma map_unat_PutUint64: "map unat (PutUint64 v) = digits 8 (unat v)"
  by (simp add: PutUint64_def unat_byte0 unat_drop digits_numeral digits_1)

lemma PutUint64_mono:
  assumes "v1 < v2"
  shows "PutUint64 v1 < PutUint64 v2"
proof -
  have "unat v1 < unat v2" using assms by (simp add: word_less_nat_alt)
  moreover have "unat v < 256 ^ 8" for v :: uint64
    using unsigned_less [of v, where 'a = nat] by simp
  ultimately have "unat v1 mod 256 ^ 8 < unat v2 mod 256 ^ 8" by simp
  then have "digits 8 (unat v1) < digits 8 (unat v2)" by (rule digits_mono)
  then show ?thesis
    unfolding map_unat_PutUint64 [symmetric] by (rule map_unat_less)
qed


lemma length_PutUint64 [simp]: "length (PutUint64 v) = 8"
  by (simp add: PutUint64_def)

lemma heightHashToKey_eq:
  "length hash = HashSize \<Longrightarrow> heightHashToKey height hash = Inr (PutUint64 height @ [0] @ hash)"
  by (simp add: heightHashToKey_def copy_def HashSize_def Let_def)

lemma heightHashToKey_panics:
  "length hash \<noteq> HashSize \<Longrightarrow> heightHashToKey height hash = Inl (Panic ''invalid hash size'')"
  by (simp add: heightHashToKey_def)

lemma keyToHeightHash_eq:
  "length key = 8 + 1 + HashSize \<Longrightarrow>
     keyToHeightHash key = Inr (Uint64_of (take 8 key), drop 9 key)"
  by (simp add: keyToHeightHash_def copy_def HashSize_def Let_def Uint64_def)

text \<open>
  Claim C10. For every height \<open>h\<close> and every 32-byte hash \<open>b\<close>, \<open>heightHashToKey\<close>
  returns a key that \<open>keyToHeightHash\<close> maps back to exactly \<open>(h, b)\<close>; the key is 41
  bytes long and its byte at index 8 is \<open>0x00\<close>.
\<close>

theorem key_roundtrip:
  assumes "length b = HashSize"
  shows "\<exists>key. heightHashToKey h b = Inr key \<and> keyToHeightHash key = Inr (h, b) \<and>
           length key = 41 \<and> key ! 8 = 0"
proof -
  let ?key = "PutUint64 h @ [0] @ b"
  have k: "heightHashToKey h b = Inr ?key" using assms by (rule heightHashToKey_eq)
  have len: "length ?key = 8 + 1 + HashSize" using assms by simp
  have "keyToHeightHash ?key = Inr (Uint64_of (take 8 ?key), drop 9 ?key)"
    using len by (rule keyToHeightHash_eq)
  then have "keyToHeightHash ?key = Inr (h, b)"
    by (simp add: Uint64_of_PutUint64)
  moreover have "length ?key = 41" using assms by (simp add: HashSize_def)
  moreover have "?key ! 8 = 0" by (simp add: nth_append)
  ultimately show ?thesis using k by blast
qed

theorem key_roundtrip_witness:
  "length (replicate 32 (7 :: byte)) = HashSize \<and>
   (\<exists>key. heightHashToKey 1000 (replicate 32 7) = Inr key \<and>
      keyToHeightHash key = Inr (1000, replicate 32 7) \<and> length key = 41 \<and> key ! 8 = 0)"
  using key_roundtrip [of "replicate 32 7" 1000] by (simp add: HashSize_def)

lemma append_less_append:
  assumes "xs < ys" "length xs = length ys"
  shows "xs @ us < ys @ (vs :: 'a :: linorder list)"
  using assms unfolding list_less_def by (simp add: lexord_sufI)

lemma key_mono:
  assumes "h1 < h2"
  shows "PutUint64 h1 @ [0] @ b1 < PutUint64 h2 @ [0] @ b2"
  using PutUint64_mono [OF assms] by (rule append_less_append) simp

lemma key_height_mono:
  assumes "length k1 = 8 + 1 + HashSize" "length k2 = 8 + 1 + HashSize" "k1 \<le> k2"
  shows "Uint64_of (take 8 k1) \<le> Uint64_of (take 8 k2)"
proof (rule ccontr)
  assume "\<not> Uint64_of (take 8 k1) \<le> Uint64_of (take 8 k2)"
  then have "Uint64_of (take 8 k2) < Uint64_of (take 8 k1)" by simp
  then have "PutUint64 (Uint64_of (take 8 k2)) < PutUint64 (Uint64_of (take 8 k1))"
    by (rule PutUint64_mono)
  moreover have "length (take 8 k1) = 8" "length (take 8 k2) = 8" using assms by simp_all
  ultimately have "take 8 k2 < take 8 k1" by (simp add: PutUint64_Uint64_of)
  then have "take 8 k2 @ drop 8 k2 < take 8 k1 @ drop 8 k1"
    by (rule append_less_append) (use assms in simp)
  then show False using assms(3) by simp
qed

subsection \<open>The namespaces stay ordered\<close>

lemma keys_db_put: "fst ` set (db_put k v d) = insert k (fst ` set d)"
proof (induction d)
  case Nil
  then show ?case by simp
next
  case (Cons kv d)
  obtain k' v' where kv: "kv = (k', v')" by (cases kv)
  show ?case unfolding kv using Cons.IH by (simp add: insert_commute)
qed

lemma db_ok_put: "db_ok d \<Longrightarrow> db_ok (db_put k v d)"
proof (induction d)
  case Nil
  then show ?case by (simp add: db_ok_def)
next
  case (Cons kv d)
  obtain k' v' where kv: "kv = (k', v')" by (cases kv)
  from Cons.prems have ok: "db_ok d" and lt: "\<forall>x\<in>fst ` set d. k' < x"
    by (auto simp: db_ok_def kv)
  show ?case
  proof (cases "k < k'")
    case True
    then show ?thesis using Cons.prems lt by (auto simp: db_ok_def kv)
  next
    case False
    show ?thesis
    proof (cases "k = k'")
      case True
      then show ?thesis using Cons.prems by (auto simp: db_ok_def kv)
    next
      case neq: False
      with False have "k' < k" by simp
      moreover have "db_ok (db_put k v d)" using ok by (rule Cons.IH)
      ultimately show ?thesis
        using False neq lt keys_db_put [of k v d] by (auto simp: db_ok_def kv)
    qed
  qed
qed

lemma db_ok_delete: "db_ok d \<Longrightarrow> db_ok (db_delete k d)"
proof -
  have "map fst (db_delete k d) = filter (\<lambda>x. x \<noteq> k) (map fst d)"
    by (simp add: db_delete_def filter_map comp_def)
  then show "db_ok d \<Longrightarrow> db_ok (db_delete k d)"
    by (simp add: db_ok_def sorted_wrt_filter)
qed

lemma db_ok_apply: "db_ok d \<Longrightarrow> db_ok (db_apply d op)"
  by (cases op) (simp_all add: db_ok_put db_ok_delete)

lemma db_ok_write: "db_ok d \<Longrightarrow> db_ok (db_write batch d)"
  unfolding db_write_def by (induction batch arbitrary: d) (simp_all add: db_ok_apply)


lemma missing_keys_ok_put:
  assumes "missing_keys_ok d" "length k = 8 + 1 + HashSize"
  shows "missing_keys_ok (db_put k v d)"
  unfolding missing_keys_ok_def list_all_iff
proof
  fix kv assume "kv \<in> set (db_put k v d)"
  then have "fst kv \<in> fst ` set (db_put k v d)" by (rule imageI)
  then have "fst kv = k \<or> fst kv \<in> fst ` set d" by (simp add: keys_db_put)
  then show "length (fst kv) = 8 + 1 + HashSize"
  proof
    assume "fst kv = k"
    then show ?thesis using assms(2) by simp
  next
    assume "fst kv \<in> fst ` set d"
    then obtain kv' where "kv' \<in> set d" "fst kv = fst kv'" by blast
    then show ?thesis using assms(1) by (simp add: missing_keys_ok_def list_all_iff)
  qed
qed

lemma missing_keys_ok_delete: "missing_keys_ok d \<Longrightarrow> missing_keys_ok (db_delete k d)"
  by (simp add: missing_keys_ok_def list_all_iff db_delete_def)

lemma missing_keys_ok_write:
  "key_puts batch \<Longrightarrow> missing_keys_ok d \<Longrightarrow> missing_keys_ok (db_write batch d)"
  unfolding db_write_def key_puts_def
  by (induction batch arbitrary: d) (auto simp: missing_keys_ok_put)

lemma length_heightHashToKey:
  "heightHashToKey h b = Inr key \<Longrightarrow> length key = 8 + 1 + HashSize"
  by (auto simp: heightHashToKey_def copy_def Let_def split: if_splits)

lemma insert_loop_key_puts:
  "insert_loop j clock k bhs (bm, hb, l) = Inr (bm', hb', l') \<Longrightarrow> key_puts bm \<Longrightarrow> key_puts bm'"
proof (induction bhs arbitrary: k bm hb l)
  case Nil
  then show ?case by simp
next
  case (Cons bh bhs)
  show ?case
  proof (cases "BlockHeader.Height bh = 0")
    case True
    with Cons.prems obtain bhj where
      "insert_loop j clock (Suc k) bhs (bm, hb @ [BatchPut (BlockHeader.Hash bh) bhj], bhj) = Inr (bm', hb', l')"
      by (auto split: option.splits)
    then show ?thesis using Cons.prems(2) by (rule Cons.IH)
  next
    case False
    with Cons.prems obtain key bhj where
      key: "heightHashToKey (BlockHeader.Height bh) (BlockHeader.Hash bh) = Inr key" and
      rest: "insert_loop j clock (Suc k) bhs
        (bm @ [BatchPut key []], hb @ [BatchPut (BlockHeader.Hash bh) bhj], bhj) = Inr (bm', hb', l')"
      by (auto split: option.splits sum.splits)
    have "key_puts (bm @ [BatchPut key []])"
      using Cons.prems(2) length_heightHashToKey [OF key] by (simp add: key_puts_def)
    with rest show ?thesis by (rule Cons.IH)
  qed
qed

lemma BlockHeadersInsert_cases:
  assumes "BlockHeadersInsert j io clock s bhs = (r, s')"
  shows "s' = s \<or>
    (\<exists>bm hb l. insert_loop j clock 0 bhs ([], [], []) = Inr (bm, hb, l) \<and>
       (s' = s(BlocksMissingDB := db_write bm (s BlocksMissingDB)) \<or>
        s' = s(BlocksMissingDB := db_write bm (s BlocksMissingDB),
               BlockHeadersDB := db_write (hb @ [BatchPut bhsLastKey l]) (s BlockHeadersDB))))"
  using assms unfolding BlockHeadersInsert_def Let_def
  by (simp split: if_splits option.splits sum.splits bool.splits prod.splits)

lemma BlockInsert_cases:
  assumes "BlockInsert j io s b = (r, s', lg)"
  shows "s' = s \<or>
    (\<exists>bj bm'. (bm' = s BlocksMissingDB \<or> (\<exists>key. bm' = db_delete key (s BlocksMissingDB))) \<and>
       (s' = s(BlocksDB := db_put (Block.Hash b) bj (s BlocksDB)) \<or>
        s' = s(BlocksDB := db_put (Block.Hash b) bj (s BlocksDB), BlocksMissingDB := bm') \<or>
        s' = s(BlocksDB := db_put (Block.Hash b) bj (s BlocksDB), BlocksMissingDB := bm',
               BlockHeadersDB := s BlockHeadersDB)))"
  using assms unfolding BlockInsert_def Let_def tx_delete_def
  apply (simp split: if_splits option.splits sum.splits ldb_error.splits)
  apply blast+
  done

lemma BlockInsert_frame:
  assumes "BlockInsert j io s b = (r, s', lg)"
  shows "s' BlockHeadersDB = s BlockHeadersDB"
    and "s' BlocksMissingDB = s BlocksMissingDB \<or>
         (\<exists>key. s' BlocksMissingDB = db_delete key (s BlocksMissingDB))"
    and "s' BlocksDB = s BlocksDB \<or>
         (\<exists>bj. s' BlocksDB = db_put (Block.Hash b) bj (s BlocksDB))"
  using BlockInsert_cases [OF assms] by auto

lemma store_ok_BlockHeadersInsert:
  assumes "store_ok s" "missing_keys_ok (s BlocksMissingDB)"
  shows "store_ok (snd (BlockHeadersInsert j io clock s bhs)) \<and>
         missing_keys_ok (snd (BlockHeadersInsert j io clock s bhs) BlocksMissingDB)"
proof -
  obtain r s' where rs: "BlockHeadersInsert j io clock s bhs = (r, s')"
    by (cases "BlockHeadersInsert j io clock s bhs")
  have "store_ok s' \<and> missing_keys_ok (s' BlocksMissingDB)"
    using BlockHeadersInsert_cases [OF rs]
  proof (elim disjE exE conjE)
    assume "s' = s"
    then show ?thesis using assms by simp
  next
    fix bm hb l
    assume loop: "insert_loop j clock 0 bhs ([], [], []) = Inr (bm, hb, l)"
    have kp: "key_puts bm" using insert_loop_key_puts [OF loop] by (simp add: key_puts_def)
    {
      assume "s' = s(BlocksMissingDB := db_write bm (s BlocksMissingDB))"
      then show ?thesis
        using assms kp by (simp add: store_ok_def db_ok_write missing_keys_ok_write)
    next
      assume "s' = s(BlocksMissingDB := db_write bm (s BlocksMissingDB),
               BlockHeadersDB := db_write (hb @ [BatchPut bhsLastKey l]) (s BlockHeadersDB))"
      then show ?thesis
        using assms kp by (simp add: store_ok_def db_ok_write missing_keys_ok_write)
    }
  qed
  then show ?thesis by (simp add: rs)
qed

lemma store_ok_BlockInsert:
  assumes "store_ok s" "missing_keys_ok (s BlocksMissingDB)"
  shows "store_ok (fst (snd (BlockInsert j io s b))) \<and>
         missing_keys_ok (fst (snd (BlockInsert j io s b)) BlocksMissingDB)"
proof -
  obtain r s' lg where rs: "BlockInsert j io s b = (r, s', lg)"
    by (cases "BlockInsert j io s b") auto
  note f = BlockInsert_frame [OF rs]
  have "db_ok (s' BlockHeadersDB)" using f(1) assms by (simp add: store_ok_def)
  moreover have "db_ok (s' BlocksMissingDB) \<and> missing_keys_ok (s' BlocksMissingDB)"
    using f(2) assms by (auto simp: store_ok_def db_ok_delete missing_keys_ok_delete)
  moreover have "db_ok (s' BlocksDB)"
    using f(3) assms by (auto simp: store_ok_def db_ok_put)
  ultimately show ?thesis by (simp add: rs store_ok_def)
qed

lemma reachable_store_ok:
  "reachable_store s \<Longrightarrow> store_ok s \<and> missing_keys_ok (s BlocksMissingDB)"
proof (induction rule: reachable_store.induct)
  case store_fresh
  then show ?case by (simp add: empty_store_def store_ok_def db_ok_def missing_keys_ok_def)
next
  case (store_headers s j io clock bhs)
  then show ?case using store_ok_BlockHeadersInsert by blast
next
  case (store_block s j io b)
  then show ?case using store_ok_BlockInsert by blast
qed


subsection \<open>\<open>BlocksMissing\<close>\<close>

lemma missing_loop_eq:
  assumes "missing_keys_ok it"
  shows "missing_loop count x it bis =
           Inr (bis @ map key_identifier (take (nat (max 1 (count - x))) it))"
  using assms
proof (induction it arbitrary: x bis)
  case Nil
  then show ?case by simp
next
  case (Cons kv it)
  from Cons.prems have len: "length (fst kv) = 8 + 1 + HashSize" and ok: "missing_keys_ok it"
    by (simp_all add: missing_keys_ok_def)
  have k: "keyToHeightHash (fst kv) = Inr (Uint64_of (take 8 (fst kv)), drop 9 (fst kv))"
    using len by (rule keyToHeightHash_eq)
  show ?case
  proof (cases "x + 1 \<ge> count")
    case True
    then have "nat (max 1 (count - x)) = 1" by simp
    then show ?thesis using True k by (simp add: key_identifier_def)
  next
    case False
    then have n: "nat (max 1 (count - x)) = Suc (nat (max 1 (count - (x + 1))))" by simp
    show ?thesis
      using False k Cons.IH [OF ok, of "x + 1"] unfolding n
      by (simp add: key_identifier_def)
  qed
qed

lemma BlocksMissing_eq:
  assumes "missing_keys_ok (s BlocksMissingDB)" "0 \<le> count"
  shows "BlocksMissing no_faults s count =
           Inr (map key_identifier (take (nat (max 1 count)) (s BlocksMissingDB)))"
  using assms by (simp add: BlocksMissing_def no_faults_def missing_loop_eq)

lemma BlocksMissing_Inr:
  assumes "missing_keys_ok (s BlocksMissingDB)" "BlocksMissing io s count = Inr bis"
  shows "bis = map key_identifier (take (nat (max 1 count)) (s BlocksMissingDB))"
  using assms
  by (auto simp: BlocksMissing_def missing_loop_eq split: option.splits if_splits)

lemma sorted_heights:
  assumes "db_ok d" "missing_keys_ok d"
  shows "sorted (map BlockIdentifier.Height (map key_identifier (take n d)))"
proof -
  have "sorted_wrt (\<lambda>a b. fst a < fst b) d"
    using assms(1) by (simp add: db_ok_def sorted_wrt_map)
  then have "sorted_wrt (\<lambda>a b. Uint64_of (take 8 (fst a)) \<le> Uint64_of (take 8 (fst b))) d"
  proof (rule sorted_wrt_mono_rel [rotated])
    fix a b assume "a \<in> set d" "b \<in> set d" "fst a < fst b"
    then show "Uint64_of (take 8 (fst a)) \<le> Uint64_of (take 8 (fst b))"
      using assms(2) by (intro key_height_mono) (auto simp: missing_keys_ok_def list_all_iff)
  qed
  then have "sorted_wrt (\<lambda>a b. Uint64_of (take 8 (fst a)) \<le> Uint64_of (take 8 (fst b))) (take n d)"
    by (rule sorted_wrt_take)
  then show ?thesis
    by (simp add: sorted_wrt_map key_identifier_def comp_def)
qed

text \<open>
  Claim C6. Keys produced by \<open>heightHashToKey\<close> are strictly monotone in the height; a
  reachable store keeps the missing-blocks namespace in key order, so
  \<open>BlocksMissing\<close> returns a result for every non-negative count when the engine
  does not fail, and whatever it returns is in non-decreasing height order.
\<close>

theorem BlocksMissing_height_ordered:
  "(length b1 = HashSize \<and> length b2 = HashSize \<and> h1 < h2 \<longrightarrow>
      (\<exists>k1 k2. heightHashToKey h1 b1 = Inr k1 \<and> heightHashToKey h2 b2 = Inr k2 \<and> k1 < k2)) \<and>
   (reachable_store s \<and> 0 \<le> count \<longrightarrow>
      (\<exists>bis. BlocksMissing no_faults s count = Inr bis \<and>
         sorted (map BlockIdentifier.Height bis))) \<and>
   (reachable_store s \<and> BlocksMissing io s count' = Inr bis' \<longrightarrow>
      sorted (map BlockIdentifier.Height bis'))"
proof (intro conjI impI)
  assume "length b1 = HashSize \<and> length b2 = HashSize \<and> h1 < h2"
  then show "\<exists>k1 k2. heightHashToKey h1 b1 = Inr k1 \<and> heightHashToKey h2 b2 = Inr k2 \<and> k1 < k2"
    using key_mono [of h1 h2 b1 b2] by (simp add: heightHashToKey_eq)
next
  assume a: "reachable_store s \<and> 0 \<le> count"
  then have ok: "db_ok (s BlocksMissingDB)" "missing_keys_ok (s BlocksMissingDB)"
    using reachable_store_ok [of s] by (simp_all add: store_ok_def)
  show "\<exists>bis. BlocksMissing no_faults s count = Inr bis \<and> sorted (map BlockIdentifier.Height bis)"
    using a BlocksMissing_eq [of s count] ok sorted_heights [OF ok] by simp
next
  assume a: "reachable_store s \<and> BlocksMissing io s count' = Inr bis'"
  then have ok: "db_ok (s BlocksMissingDB)" "missing_keys_ok (s BlocksMissingDB)"
    using reachable_store_ok [of s] by (simp_all add: store_ok_def)
  show "sorted (map BlockIdentifier.Height bis')"
    using a BlocksMissing_Inr [of s io count' bis'] ok sorted_heights [OF ok] by simp
qed

subsection \<open>The sample data\<close>

lemma length_sample_hash [simp]: "length (sample_hash x) = HashSize"
  by (simp add: sample_hash_def HashSize_def)

lemma sample_hash_less: "x < y \<Longrightarrow> sample_hash x < sample_hash y"
  by (simp add: sample_hash_def)

lemma sample_hash_less_last: "x < 0x6c \<Longrightarrow> sample_hash x < bhsLastKey"
  by (simp add: sample_hash_def bhsLastKey_def)

lemma sample_marshal:
  "MarshalBlockHeader sample_json bh =
     Some (PutUint64 (BlockHeader.Height bh) @ BlockHeader.Hash bh @ BlockHeader.Header bh)"
  by (simp add: sample_json_def)

lemma sample_unmarshal_header:
  "length b = HashSize \<Longrightarrow>
   UnmarshalBlockHeader sample_json (PutUint64 h @ b @ hdr) =
     Some \<lparr>BlockHeader.Hash = b, BlockHeader.Height = h,
            BlockHeader.Header = hdr, BlockHeader.CreatedAt = 0\<rparr>"
  by (simp add: sample_json_def Uint64_of_PutUint64 HashSize_def)

lemma sample_unmarshal:
  "length b = HashSize \<Longrightarrow>
   UnmarshalBlockHeader sample_json (PutUint64 h @ b) =
     Some \<lparr>BlockHeader.Hash = b, BlockHeader.Height = h,
            BlockHeader.Header = [], BlockHeader.CreatedAt = 0\<rparr>"
  using sample_unmarshal_header [of b h "[]"] by simp

lemma sample_insert:
  "BlockHeadersInsert sample_json no_faults sample_clock empty_store
     [sample_header 1 1, sample_header 2 2] =
   (Inr (), empty_store
      (BlocksMissingDB :=
         [(PutUint64 1 @ [0] @ sample_hash 1, []), (PutUint64 2 @ [0] @ sample_hash 2, [])],
       BlockHeadersDB :=
         [(sample_hash 1, PutUint64 1 @ sample_hash 1),
          (sample_hash 2, PutUint64 2 @ sample_hash 2),
          (bhsLastKey, PutUint64 2 @ sample_hash 2)]))"
proof -
  have k: "PutUint64 1 @ [0] @ sample_hash 1 < PutUint64 2 @ [0] @ sample_hash 2"
    by (rule key_mono) simp
  have h: "sample_hash 1 < sample_hash 2" "sample_hash 1 < bhsLastKey" "sample_hash 2 < bhsLastKey"
    by (simp_all add: sample_hash_less sample_hash_less_last)
  have nk: "\<not> PutUint64 2 @ [0] @ sample_hash 2 < PutUint64 1 @ [0] @ sample_hash 1"
       "PutUint64 2 @ [0] @ sample_hash 2 \<noteq> PutUint64 1 @ [0] @ sample_hash 1"
    using k by auto
  have nh: "\<not> sample_hash 2 < sample_hash 1" "sample_hash 2 \<noteq> sample_hash 1"
       "\<not> bhsLastKey < sample_hash 1" "bhsLastKey \<noteq> sample_hash 1"
       "\<not> bhsLastKey < sample_hash 2" "bhsLastKey \<noteq> sample_hash 2"
    using h by auto
  show ?thesis
    using nk nh
    by (simp add: BlockHeadersInsert_def no_faults_def tx_has_def db_has_def empty_store_def
        sample_header_def heightHashToKey_eq sample_marshal sample_clock_def db_write_def)
qed

lemma sample_store_eq:
  "sample_store = empty_store
      (BlocksMissingDB :=
         [(PutUint64 1 @ [0] @ sample_hash 1, []), (PutUint64 2 @ [0] @ sample_hash 2, [])],
       BlockHeadersDB :=
         [(sample_hash 1, PutUint64 1 @ sample_hash 1),
          (sample_hash 2, PutUint64 2 @ sample_hash 2),
          (bhsLastKey, PutUint64 2 @ sample_hash 2)])"
  by (simp add: sample_store_def sample_insert)

lemma reachable_sample_store: "reachable_store sample_store"
  unfolding sample_store_def by (intro reachable_store.intros)



lemma sample_missing_two:
  "BlocksMissing no_faults sample_store 2 =
     Inr [\<lparr>BlockIdentifier.Height = 1, BlockIdentifier.Hash = sample_hash 1\<rparr>,
          \<lparr>BlockIdentifier.Height = 2, BlockIdentifier.Hash = sample_hash 2\<rparr>]"
  by (simp add: sample_store_eq BlocksMissing_def no_faults_def keyToHeightHash_eq
      Uint64_of_PutUint64)

theorem BlocksMissing_height_ordered_witness:
  "length (sample_hash 1) = HashSize \<and> length (sample_hash 2) = HashSize \<and> (1 :: uint64) < 2 \<and>
   (\<exists>k1 k2. heightHashToKey 1 (sample_hash 1) = Inr k1 \<and>
      heightHashToKey 2 (sample_hash 2) = Inr k2 \<and> k1 < k2) \<and>
   reachable_store sample_store \<and> (0 :: int) \<le> 2 \<and>
   BlocksMissing no_faults sample_store 2 =
     Inr [\<lparr>BlockIdentifier.Height = 1, BlockIdentifier.Hash = sample_hash 1\<rparr>,
          \<lparr>BlockIdentifier.Height = 2, BlockIdentifier.Hash = sample_hash 2\<rparr>] \<and>
   sorted (map BlockIdentifier.Height
     [\<lparr>BlockIdentifier.Height = 1, BlockIdentifier.Hash = sample_hash 1\<rparr>,
      \<lparr>BlockIdentifier.Height = 2, BlockIdentifier.Hash = sample_hash 2\<rparr>])"
  using BlocksMissing_height_ordered
    [where ?b1.0 = "sample_hash 1" and ?b2.0 = "sample_hash 2" and ?h1.0 = 1 and ?h2.0 = 2
       and s = sample_store and count = 2 and io = no_faults and count' = 2
       and bis' = "[\<lparr>BlockIdentifier.Height = 1, BlockIdentifier.Hash = sample_hash 1\<rparr>,
                   \<lparr>BlockIdentifier.Height = 2, BlockIdentifier.Hash = sample_hash 2\<rparr>]"]
    reachable_sample_store sample_missing_two
  by simp

text \<open>
  For a count of at least 1 and an engine that does not fail, \<open>BlocksMissing\<close> returns the
  first \<open>count\<close> entries of the namespace, read as block identifiers.
\<close>

lemma BlocksMissing_positive:
  assumes "missing_keys_ok (s BlocksMissingDB)" "1 \<le> count"
  shows "BlocksMissing no_faults s count =
           Inr (map key_identifier (take (nat count) (s BlocksMissingDB)))"
  using assms BlocksMissing_eq [of s count] by (simp add: max_def)

text \<open>
  Claim C7 does not hold of the code at a limit of 0: the loop appends an entry before it
  compares \<open>x\<close> with \<open>count\<close>, so on the sample store, which holds two missing blocks,
  \<open>BlocksMissing\<close> with limit 0 returns one entry.
\<close>

theorem BlocksMissing_limit_zero:
  "BlocksMissing no_faults sample_store 0 =
     Inr [\<lparr>BlockIdentifier.Height = 1, BlockIdentifier.Hash = sample_hash 1\<rparr>]"
  by (simp add: sample_store_eq BlocksMissing_def no_faults_def keyToHeightHash_eq
      Uint64_of_PutUint64)

subsection \<open>Reading the namespaces as maps\<close>

lemma map_of_db_put: "map_of (db_put k v d) = (map_of d)(k \<mapsto> v)"
  by (induction d) (auto simp: fun_upd_twist)





text \<open>A batch of puts, written in order, overrides the namespace with its last values.\<close>

lemma map_of_db_write_puts:
  "map_of (db_write (map (\<lambda>kv. BatchPut (fst kv) (snd kv)) kvs) d) = map_of d ++ map_of (rev kvs)"
proof (induction kvs arbitrary: d)
  case Nil
  then show ?case by (simp add: db_write_def)
next
  case (Cons kv kvs)
  have "map_of (db_write (map (\<lambda>kv. BatchPut (fst kv) (snd kv)) (kv # kvs)) d) =
        map_of (db_write (map (\<lambda>kv. BatchPut (fst kv) (snd kv)) kvs) (db_put (fst kv) (snd kv) d))"
    by (simp add: db_write_def)
  also have "\<dots> = (map_of d)(fst kv \<mapsto> snd kv) ++ map_of (rev kvs)"
    by (simp only: Cons.IH map_of_db_put)
  also have "\<dots> = map_of d ++ map_of (rev (kv # kvs))"
    by (cases kv) (auto simp: map_add_def fun_eq_iff split: option.splits)
  finally show ?case .
qed

lemma map_of_const_values:
  "map_of (map (\<lambda>x. (f x, c)) xs) k = (if k \<in> f ` set xs then Some c else None)"
  by (induction xs) auto

lemma map_of_find:
  "map_of (map (\<lambda>x. (f x, g x)) xs) k = map_option g (find (\<lambda>x. f x = k) xs)"
  by (induction xs) auto

subsection \<open>The insert loop\<close>

lemma stamp_Hash [simp]: "map BlockHeader.Hash (stamp clock k bhs) = map BlockHeader.Hash bhs"
  by (induction bhs arbitrary: k) simp_all

lemma stamp_Height [simp]: "map BlockHeader.Height (stamp clock k bhs) = map BlockHeader.Height bhs"
  by (induction bhs arbitrary: k) simp_all

lemma length_stamp [simp]: "length (stamp clock k bhs) = length bhs"
  by (induction bhs arbitrary: k) simp_all

lemma stamp_Nil_iff [simp]: "stamp clock k bhs = [] \<longleftrightarrow> bhs = []"
  by (cases bhs) simp_all

lemma insert_loop_eq:
  assumes "\<forall>bh\<in>set bhs. BlockHeader.Height bh \<noteq> 0 \<longrightarrow> length (BlockHeader.Hash bh) = HashSize"
      and "\<forall>bh\<in>set (stamp clock k bhs). MarshalBlockHeader j bh \<noteq> None"
  shows "insert_loop j clock k bhs (bm, hb, l) =
           Inr (bm @ as_batch (missing_puts bhs),
                hb @ as_batch (header_puts j (stamp clock k bhs)),
                if bhs = [] then l else the (MarshalBlockHeader j (last (stamp clock k bhs))))"
  using assms
proof (induction bhs arbitrary: k bm hb l)
  case Nil
  then show ?case by (simp add: as_batch_def missing_puts_def header_puts_def)
next
  case (Cons bh bhs)
  from Cons.prems(2) obtain bhj where
    bhj: "MarshalBlockHeader j (bh\<lparr>BlockHeader.CreatedAt := clock k\<rparr>) = Some bhj"
    by auto
  have rest: "\<forall>bh\<in>set bhs. BlockHeader.Height bh \<noteq> 0 \<longrightarrow> length (BlockHeader.Hash bh) = HashSize"
       "\<forall>bh\<in>set (stamp clock (Suc k) bhs). MarshalBlockHeader j bh \<noteq> None"
    using Cons.prems by simp_all
  note IH = Cons.IH [OF rest]
  show ?case
  proof (cases "BlockHeader.Height bh = 0")
    case True
    then show ?thesis
      using bhj by (simp add: IH as_batch_def missing_puts_def header_puts_def)
  next
    case False
    then have "heightHashToKey (BlockHeader.Height bh) (BlockHeader.Hash bh) =
        Inr (PutUint64 (BlockHeader.Height bh) @ [0] @ BlockHeader.Hash bh)"
      using Cons.prems(1) by (simp add: heightHashToKey_eq)
    then show ?thesis
      using False bhj by (simp add: IH as_batch_def missing_puts_def header_puts_def)
  qed
qed

lemma insert_loop_Inr:
  assumes "insert_loop j clock k bhs (bm, hb, l) = Inr r"
  shows "(\<forall>bh\<in>set bhs. BlockHeader.Height bh \<noteq> 0 \<longrightarrow> length (BlockHeader.Hash bh) = HashSize) \<and>
         (\<forall>bh\<in>set (stamp clock k bhs). MarshalBlockHeader j bh \<noteq> None)"
  using assms
proof (induction bhs arbitrary: k bm hb l)
  case Nil
  then show ?case by simp
next
  case (Cons bh bhs)
  show ?case
  proof (cases "BlockHeader.Height bh = 0")
    case True
    with Cons.prems obtain bhj where
      bhj: "MarshalBlockHeader j (bh\<lparr>BlockHeader.CreatedAt := clock k\<rparr>) = Some bhj" and
      rest: "insert_loop j clock (Suc k) bhs (bm, hb @ [BatchPut (BlockHeader.Hash bh) bhj], bhj) = Inr r"
      by (auto split: option.splits)
    show ?thesis using Cons.IH [OF rest] True bhj by simp
  next
    case False
    with Cons.prems obtain key bhj where
      key: "heightHashToKey (BlockHeader.Height bh) (BlockHeader.Hash bh) = Inr key" and
      bhj: "MarshalBlockHeader j (bh\<lparr>BlockHeader.CreatedAt := clock k\<rparr>) = Some bhj" and
      rest: "insert_loop j clock (Suc k) bhs
        (bm @ [BatchPut key []], hb @ [BatchPut (BlockHeader.Hash bh) bhj], bhj) = Inr r"
      by (auto split: option.splits sum.splits)
    have "length (BlockHeader.Hash bh) = HashSize"
      using key by (auto simp: heightHashToKey_def split: if_splits)
    then show ?thesis using Cons.IH [OF rest] bhj by simp
  qed
qed


subsection \<open>\<open>BlockHeadersInsert\<close>\<close>

lemma BlockHeadersInsert_Inr:
  assumes "BlockHeadersInsert j io clock s bhs = (Inr u, s')"
  shows "bhs \<noteq> [] \<and> \<not> db_has (s BlockHeadersDB) (BlockHeader.Hash (hd bhs)) \<and>
    (\<exists>bm hb l. insert_loop j clock 0 bhs ([], [], []) = Inr (bm, hb, l) \<and>
       s' = s(BlocksMissingDB := db_write bm (s BlocksMissingDB),
              BlockHeadersDB := db_write (hb @ [BatchPut bhsLastKey l]) (s BlockHeadersDB)))"
  using assms unfolding BlockHeadersInsert_def Let_def tx_has_def
  by (simp split: if_splits option.splits sum.splits bool.splits prod.splits)

lemma BlockHeadersInsert_eq:
  assumes "bhs \<noteq> []" "\<not> db_has (s BlockHeadersDB) (BlockHeader.Hash (hd bhs))"
      and "\<forall>bh\<in>set bhs. BlockHeader.Height bh \<noteq> 0 \<longrightarrow> length (BlockHeader.Hash bh) = HashSize"
      and "\<forall>bh\<in>set (stamp clock 0 bhs). MarshalBlockHeader j bh \<noteq> None"
  shows "BlockHeadersInsert j no_faults clock s bhs =
    (Inr (), s(BlocksMissingDB := db_write (as_batch (missing_puts bhs)) (s BlocksMissingDB),
               BlockHeadersDB :=
                 db_write (as_batch (header_puts j (stamp clock 0 bhs) @
                     [(bhsLastKey, the (MarshalBlockHeader j (last (stamp clock 0 bhs))))]))
                   (s BlockHeadersDB)))"
  using assms(1,2) insert_loop_eq [OF assms(3,4), of "[]" "[]" "[]"]
  by (simp add: BlockHeadersInsert_def no_faults_def tx_has_def as_batch_def)

lemma BlockHeadersInsert_duplicate:
  assumes "bhs \<noteq> []" "db_has (s BlockHeadersDB) (BlockHeader.Hash (hd bhs))"
  shows "BlockHeadersInsert j no_faults clock s bhs =
           (Inl (DuplicateError ''block headers insert duplicate''), s)"
    and "snd (BlockHeadersInsert j io clock s bhs) = s"
  using assms
  by (simp_all add: BlockHeadersInsert_def Let_def no_faults_def tx_has_def split: option.splits)

lemma db_has_write_puts:
  assumes "k \<in> fst ` set kvs"
  shows "db_has (db_write (as_batch kvs) d) k"
proof -
  have "k \<in> dom (map_of (rev kvs))" using assms by (simp add: dom_map_of_conv_image_fst)
  then show ?thesis
    unfolding db_has_def as_batch_def map_of_db_write_puts by (auto simp: map_add_def split: option.splits)
qed

text \<open>
  Claim C4. After a batch was inserted, inserting it again (the slice as the first call
  left it, or as it was passed) returns \<open>Duplicate\<close> and leaves all three namespaces as
  they were; no write happens whatever the engine does.
\<close>

theorem BlockHeadersInsert_idempotent:
  assumes "BlockHeadersInsert j no_faults clock s bhs = (Inr (), s1)"
  shows "BlockHeadersInsert j no_faults clock' s1 (stamp clock 0 bhs) =
           (Inl (DuplicateError ''block headers insert duplicate''), s1) \<and>
         BlockHeadersInsert j no_faults clock' s1 bhs =
           (Inl (DuplicateError ''block headers insert duplicate''), s1) \<and>
         snd (BlockHeadersInsert j io clock' s1 (stamp clock 0 bhs)) = s1 \<and>
         snd (BlockHeadersInsert j io clock' s1 bhs) = s1"
proof -
  from BlockHeadersInsert_Inr [OF assms] obtain bm hb l where
    ne: "bhs \<noteq> []" and
    loop: "insert_loop j clock 0 bhs ([], [], []) = Inr (bm, hb, l)" and
    s1: "s1 = s(BlocksMissingDB := db_write bm (s BlocksMissingDB),
                BlockHeadersDB := db_write (hb @ [BatchPut bhsLastKey l]) (s BlockHeadersDB))"
    by blast
  note c = insert_loop_Inr [OF loop]
  have hb: "hb = as_batch (header_puts j (stamp clock 0 bhs))"
    using loop insert_loop_eq [of bhs clock 0 j "[]" "[]" "[]"] c by simp
  have batch: "hb @ [BatchPut bhsLastKey l] =
      as_batch (header_puts j (stamp clock 0 bhs) @ [(bhsLastKey, l)])"
    by (simp add: hb as_batch_def)
  have "BlockHeader.Hash (hd bhs) \<in> fst ` set (header_puts j (stamp clock 0 bhs) @ [(bhsLastKey, l)])"
  proof -
    have "BlockHeader.Hash (hd bhs) \<in> set (map BlockHeader.Hash (stamp clock 0 bhs))"
      using ne by simp
    moreover have "map fst (header_puts j (stamp clock 0 bhs)) =
        map BlockHeader.Hash (stamp clock 0 bhs)"
      by (simp add: header_puts_def comp_def)
    ultimately have "BlockHeader.Hash (hd bhs) \<in> set (map fst (header_puts j (stamp clock 0 bhs)))"
      by simp
    then show ?thesis by auto
  qed
  then have has: "db_has (s1 BlockHeadersDB) (BlockHeader.Hash (hd bhs))"
    unfolding s1 batch by (simp add: db_has_write_puts)
  have ne': "stamp clock 0 bhs \<noteq> []" using ne by simp
  have "BlockHeader.Hash (hd (stamp clock 0 bhs)) = BlockHeader.Hash (hd bhs)"
    using ne by (cases bhs) simp_all
  then have has': "db_has (s1 BlockHeadersDB) (BlockHeader.Hash (hd (stamp clock 0 bhs)))"
    using has by simp
  show ?thesis
    using BlockHeadersInsert_duplicate(1) [where s = s1 and bhs = bhs and j = j and clock = clock']
      BlockHeadersInsert_duplicate(2) [where s = s1 and bhs = bhs and j = j and io = io and clock = clock']
      BlockHeadersInsert_duplicate(1) [where s = s1 and bhs = "stamp clock 0 bhs" and j = j and clock = clock']
      BlockHeadersInsert_duplicate(2) [where s = s1 and bhs = "stamp clock 0 bhs" and j = j and io = io and clock = clock']
      ne ne' has has'
    by simp
qed

theorem BlockHeadersInsert_idempotent_witness:
  "BlockHeadersInsert sample_json no_faults sample_clock empty_store
     [sample_header 1 1, sample_header 2 2] = (Inr (), sample_store) \<and>
   BlockHeadersInsert sample_json no_faults sample_clock sample_store
     [sample_header 1 1, sample_header 2 2] =
     (Inl (DuplicateError ''block headers insert duplicate''), sample_store)"
proof -
  have first: "BlockHeadersInsert sample_json no_faults sample_clock empty_store
     [sample_header 1 1, sample_header 2 2] = (Inr (), sample_store)"
    by (simp add: sample_insert sample_store_eq)
  show ?thesis
    using first BlockHeadersInsert_idempotent [OF first, of sample_clock no_faults] by simp
qed

subsection \<open>\<open>BlockInsert\<close> without a header\<close>

text \<open>
  Claim C5. When the block's hash has no block header record, \<open>BlockInsert\<close> returns the
  not-found error, logs nothing and leaves the store as it was; whatever the engine
  does, the call fails and writes nothing.
\<close>

theorem BlockInsert_not_found:
  assumes "db_get (s BlockHeadersDB) (Block.Hash b) = None"
  shows "BlockInsert j no_faults s b = (Inl (NotFoundError ''block header not found''), s, []) \<and>
         isl (fst (BlockInsert j io s b)) \<and> fst (snd (BlockInsert j io s b)) = s"
  using assms
  by (simp add: BlockInsert_def Let_def no_faults_def tx_get_def split: option.splits ldb_error.splits)

theorem BlockInsert_not_found_witness:
  "db_get (sample_store BlockHeadersDB) (Block.Hash \<lparr>Block.Hash = sample_hash 9, Block = [1, 2, 3]\<rparr>) = None \<and>
   BlockInsert sample_json no_faults sample_store \<lparr>Block.Hash = sample_hash 9, Block = [1, 2, 3]\<rparr> =
     (Inl (NotFoundError ''block header not found''), sample_store, [])"
proof -
  have none: "db_get (sample_store BlockHeadersDB)
      (Block.Hash \<lparr>Block.Hash = sample_hash 9, Block = [1, 2, 3]\<rparr>) = None"
    by (simp add: sample_store_eq db_get_def sample_hash_def bhsLastKey_def)
  show ?thesis
    using none
      BlockInsert_not_found [where s = sample_store and j = sample_json and io = no_faults
        and b = "\<lparr>Block.Hash = sample_hash 9, Block = [1, 2, 3]\<rparr>"]
    by simp
qed

subsection \<open>What \<open>BlockHeadersInsert\<close> writes\<close>

lemma PutUint64_inj: "PutUint64 h = PutUint64 h' \<Longrightarrow> h = h'"
  by (metis Uint64_of_PutUint64)

lemma PutUint64_eq_iff: "PutUint64 h = PutUint64 h' \<longleftrightarrow> h = h'"
  using PutUint64_inj by auto

lemma key_inj:
  "PutUint64 h @ [0] @ b = PutUint64 h' @ [0] @ b' \<longleftrightarrow> h = h' \<and> b = b'"
  using PutUint64_inj by auto

lemma find_distinct:
  "distinct (map f xs) \<Longrightarrow> x \<in> set xs \<Longrightarrow> find (\<lambda>y. f y = f x) xs = Some x"
  by (induction xs) (auto simp: image_iff)

lemma find_Some_set: "find P xs = Some x \<Longrightarrow> x \<in> set xs"
  by (induction xs) (auto split: if_splits)

lemma db_get_write_puts:
  "db_get (db_write (as_batch kvs) d) k =
     (case map_of (rev kvs) k of None \<Rightarrow> db_get d k | Some v \<Rightarrow> Some v)"
  unfolding db_get_def as_batch_def map_of_db_write_puts by (simp add: map_add_def)

lemma map_of_rev_header_puts:
  assumes "\<forall>bh\<in>set bhs. MarshalBlockHeader j bh \<noteq> None"
  shows "map_of (rev (header_puts j bhs)) k =
           (case find (\<lambda>bh. BlockHeader.Hash bh = k) (rev bhs) of
              None \<Rightarrow> None
            | Some bh \<Rightarrow> MarshalBlockHeader j bh)"
proof -
  have "map_of (rev (header_puts j bhs)) k =
        map_option (\<lambda>bh. the (MarshalBlockHeader j bh)) (find (\<lambda>bh. BlockHeader.Hash bh = k) (rev bhs))"
    by (simp add: header_puts_def rev_map map_of_find)
  also have "\<dots> = (case find (\<lambda>bh. BlockHeader.Hash bh = k) (rev bhs) of
              None \<Rightarrow> None
            | Some bh \<Rightarrow> MarshalBlockHeader j bh)"
  proof (cases "find (\<lambda>bh. BlockHeader.Hash bh = k) (rev bhs)")
    case None
    then show ?thesis by simp
  next
    case (Some bh)
    then have "bh \<in> set bhs" using find_Some_set [OF Some] by simp
    then show ?thesis using assms Some by auto
  qed
  finally show ?thesis .
qed

lemma map_of_rev_missing_puts:
  "map_of (rev (missing_puts bhs)) k =
     (if k \<in> (\<lambda>bh. PutUint64 (BlockHeader.Height bh) @ [0] @ BlockHeader.Hash bh) `
                {bh \<in> set bhs. BlockHeader.Height bh \<noteq> 0}
      then Some [] else None)"
  by (simp add: missing_puts_def rev_map map_of_const_values)

lemma BlockHeadersBest_eq:
  assumes "db_get (s BlockHeadersDB) bhsLastKey = Some v" "UnmarshalBlockHeader j v = Some bh"
  shows "BlockHeadersBest j no_faults s = Inr [bh]"
  using assms by (simp add: BlockHeadersBest_def no_faults_def tx_get_def)

text \<open>
  Claim C1. For a non-empty batch of headers with 32-byte hashes whose first hash is not
  stored, and a codec that marshals each header, \<open>BlockHeadersInsert\<close> succeeds and the
  store afterwards holds: under \<open>"last"\<close> the record of the final header; under every
  hash of the batch one record, of the (last) header with that hash, which is the entry's
  own record when the hashes are distinct; every other key of the block headers as
  before; in the missing-blocks namespace the key of every entry of non-zero height with
  an empty value, every other key as before, and so for a height-0 entry its key as
  before; the blocks namespace as before. When the codec reads the final record back,
  \<open>BlockHeadersBest\<close> returns the final header. The headers are as the call stamps them.
\<close>

theorem BlockHeadersInsert_writes:
  fixes j clock s bhs
  defines "bhs' \<equiv> stamp clock 0 bhs"
      and "s' \<equiv> snd (BlockHeadersInsert j no_faults clock s bhs)"
  assumes ne: "bhs \<noteq> []"
      and fresh: "\<not> db_has (s BlockHeadersDB) (BlockHeader.Hash (hd bhs))"
      and len: "\<forall>bh\<in>set bhs. length (BlockHeader.Hash bh) = HashSize"
      and marshal: "\<forall>bh\<in>set (stamp clock 0 bhs). MarshalBlockHeader j bh \<noteq> None"
  shows "fst (BlockHeadersInsert j no_faults clock s bhs) = Inr () \<and>
    (\<forall>k. db_get (s' BlockHeadersDB) k =
       (if k = bhsLastKey then MarshalBlockHeader j (last bhs')
        else case find (\<lambda>bh. BlockHeader.Hash bh = k) (rev bhs') of
               Some bh \<Rightarrow> MarshalBlockHeader j bh
             | None \<Rightarrow> db_get (s BlockHeadersDB) k)) \<and>
    (distinct (map BlockHeader.Hash bhs) \<longrightarrow>
       (\<forall>bh\<in>set bhs'. db_get (s' BlockHeadersDB) (BlockHeader.Hash bh) = MarshalBlockHeader j bh)) \<and>
    (\<forall>k. db_get (s' BlocksMissingDB) k =
       (if k \<in> (\<lambda>bh. PutUint64 (BlockHeader.Height bh) @ [0] @ BlockHeader.Hash bh) `
                  {bh \<in> set bhs. BlockHeader.Height bh \<noteq> 0}
        then Some [] else db_get (s BlocksMissingDB) k)) \<and>
    (\<forall>bh\<in>set bhs. BlockHeader.Height bh = 0 \<longrightarrow>
       db_get (s' BlocksMissingDB) (PutUint64 0 @ [0] @ BlockHeader.Hash bh) =
       db_get (s BlocksMissingDB) (PutUint64 0 @ [0] @ BlockHeader.Hash bh)) \<and>
    s' BlocksDB = s BlocksDB \<and>
    (UnmarshalBlockHeader j (the (MarshalBlockHeader j (last bhs'))) = Some (last bhs') \<longrightarrow>
       BlockHeadersBest j no_faults s' = Inr [last bhs'])"
proof -
  have len0: "\<forall>bh\<in>set bhs. BlockHeader.Height bh \<noteq> 0 \<longrightarrow> length (BlockHeader.Hash bh) = HashSize"
    using len by simp
  have ne': "bhs' \<noteq> []" using ne by (simp add: bhs'_def)
  have mlast: "MarshalBlockHeader j (last bhs') = Some (the (MarshalBlockHeader j (last bhs')))"
    using marshal ne' last_in_set [OF ne'] by (auto simp: bhs'_def)
  have run: "BlockHeadersInsert j no_faults clock s bhs =
    (Inr (), s(BlocksMissingDB := db_write (as_batch (missing_puts bhs)) (s BlocksMissingDB),
               BlockHeadersDB :=
                 db_write (as_batch (header_puts j bhs' @
                     [(bhsLastKey, the (MarshalBlockHeader j (last bhs')))]))
                   (s BlockHeadersDB)))"
    unfolding bhs'_def
    using BlockHeadersInsert_eq [where s = s and bhs = bhs and j = j and clock = clock]
      ne fresh len0 marshal
    by simp
  have hashlen: "\<forall>bh\<in>set bhs'. length (BlockHeader.Hash bh) = HashSize"
  proof
    fix bh assume "bh \<in> set bhs'"
    then have "BlockHeader.Hash bh \<in> set (map BlockHeader.Hash bhs')" by simp
    then have "BlockHeader.Hash bh \<in> set (map BlockHeader.Hash bhs)" by (simp add: bhs'_def)
    then show "length (BlockHeader.Hash bh) = HashSize" using len by auto
  qed
  have headers: "db_get (s' BlockHeadersDB) k =
       (if k = bhsLastKey then MarshalBlockHeader j (last bhs')
        else case find (\<lambda>bh. BlockHeader.Hash bh = k) (rev bhs') of
               Some bh \<Rightarrow> MarshalBlockHeader j bh
             | None \<Rightarrow> db_get (s BlockHeadersDB) k)" for k
  proof -
    have "db_get (s' BlockHeadersDB) k =
      (case map_of (rev (header_puts j bhs' @ [(bhsLastKey, the (MarshalBlockHeader j (last bhs')))])) k of
         None \<Rightarrow> db_get (s BlockHeadersDB) k | Some v \<Rightarrow> Some v)"
      by (simp add: s'_def run db_get_write_puts)
    also have "\<dots> = (if k = bhsLastKey then MarshalBlockHeader j (last bhs')
        else case map_of (rev (header_puts j bhs')) k of
               None \<Rightarrow> db_get (s BlockHeadersDB) k | Some v \<Rightarrow> Some v)"
      using mlast by (cases "MarshalBlockHeader j (last bhs')") simp_all
    also have "\<dots> = (if k = bhsLastKey then MarshalBlockHeader j (last bhs')
        else case find (\<lambda>bh. BlockHeader.Hash bh = k) (rev bhs') of
               Some bh \<Rightarrow> MarshalBlockHeader j bh
             | None \<Rightarrow> db_get (s BlockHeadersDB) k)"
    proof (cases "find (\<lambda>bh. BlockHeader.Hash bh = k) (rev bhs')")
      case None
      then show ?thesis
        using map_of_rev_header_puts [of bhs' j k] marshal by (simp add: bhs'_def)
    next
      case (Some bh)
      then have "bh \<in> set bhs'" using find_Some_set [OF Some] by simp
      then obtain v where "MarshalBlockHeader j bh = Some v" using marshal by (auto simp: bhs'_def)
      then show ?thesis
        using Some map_of_rev_header_puts [of bhs' j k] marshal by (simp add: bhs'_def)
    qed
    finally show ?thesis .
  qed
  have own: "db_get (s' BlockHeadersDB) (BlockHeader.Hash bh) = MarshalBlockHeader j bh"
    if d: "distinct (map BlockHeader.Hash bhs)" and bh: "bh \<in> set bhs'" for bh
  proof -
    have "distinct (map BlockHeader.Hash (rev bhs'))"
      using d by (simp add: bhs'_def rev_map [symmetric])
    then have "find (\<lambda>y. BlockHeader.Hash y = BlockHeader.Hash bh) (rev bhs') = Some bh"
      using bh by (intro find_distinct) simp_all
    moreover have "BlockHeader.Hash bh \<noteq> bhsLastKey"
      using hashlen bh by (auto simp: bhsLastKey_def HashSize_def)
    ultimately show ?thesis by (simp add: headers)
  qed
  have missing: "db_get (s' BlocksMissingDB) k =
       (if k \<in> (\<lambda>bh. PutUint64 (BlockHeader.Height bh) @ [0] @ BlockHeader.Hash bh) `
                  {bh \<in> set bhs. BlockHeader.Height bh \<noteq> 0}
        then Some [] else db_get (s BlocksMissingDB) k)" for k
    by (simp add: s'_def run db_get_write_puts map_of_rev_missing_puts)
  have genesis: "db_get (s' BlocksMissingDB) (PutUint64 0 @ [0] @ BlockHeader.Hash bh) =
       db_get (s BlocksMissingDB) (PutUint64 0 @ [0] @ BlockHeader.Hash bh)" for bh :: BlockHeader
  proof -
    have "PutUint64 0 @ [0] @ BlockHeader.Hash bh \<notin>
        (\<lambda>bh. PutUint64 (BlockHeader.Height bh) @ [0] @ BlockHeader.Hash bh) `
          {bh \<in> set bhs. BlockHeader.Height bh \<noteq> 0}"
      by (auto simp: PutUint64_eq_iff)
    then show ?thesis by (simp add: missing)
  qed
  have best: "BlockHeadersBest j no_faults s' = Inr [last bhs']"
    if "UnmarshalBlockHeader j (the (MarshalBlockHeader j (last bhs'))) = Some (last bhs')"
  proof (rule BlockHeadersBest_eq)
    show "db_get (s' BlockHeadersDB) bhsLastKey = Some (the (MarshalBlockHeader j (last bhs')))"
      using mlast by (simp add: headers)
    show "UnmarshalBlockHeader j (the (MarshalBlockHeader j (last bhs'))) = Some (last bhs')"
      by (rule that)
  qed
  have blocks: "s' BlocksDB = s BlocksDB" by (simp add: s'_def run)
  show ?thesis
    using headers own missing genesis best blocks by (simp add: run)
qed


lemma sample_stamp:
  "stamp sample_clock 0 [sample_header h x, sample_header h' x'] = [sample_header h x, sample_header h' x']"
  by (simp add: sample_header_def sample_clock_def)

lemma sample_header_sel [simp]:
  "BlockHeader.Hash (sample_header h x) = sample_hash x"
  "BlockHeader.Height (sample_header h x) = h"
  "BlockHeader.Header (sample_header h x) = []"
  by (simp_all add: sample_header_def)

theorem BlockHeadersInsert_writes_witness:
  "[sample_header 1 1, sample_header 2 2] \<noteq> [] \<and>
   \<not> db_has (empty_store BlockHeadersDB) (BlockHeader.Hash (hd [sample_header 1 1, sample_header 2 2])) \<and>
   length (BlockHeader.Hash (sample_header 1 1)) = HashSize \<and>
   length (BlockHeader.Hash (sample_header 2 2)) = HashSize \<and>
   MarshalBlockHeader sample_json (sample_header 1 1) \<noteq> None \<and>
   MarshalBlockHeader sample_json (sample_header 2 2) \<noteq> None \<and>
   fst (BlockHeadersInsert sample_json no_faults sample_clock empty_store
          [sample_header 1 1, sample_header 2 2]) = Inr () \<and>
   db_get (sample_store BlockHeadersDB) (sample_hash 1) =
     MarshalBlockHeader sample_json (sample_header 1 1) \<and>
   db_get (sample_store BlocksMissingDB) (PutUint64 1 @ [0] @ sample_hash 1) = Some [] \<and>
   BlockHeadersBest sample_json no_faults sample_store = Inr [sample_header 2 2]"
proof -
  have h1: "[sample_header 1 1, sample_header 2 2] \<noteq> []" by simp
  have h2: "\<not> db_has (empty_store BlockHeadersDB)
      (BlockHeader.Hash (hd [sample_header 1 1, sample_header 2 2]))"
    by (simp add: db_has_def empty_store_def)
  have h3: "\<forall>bh\<in>set [sample_header 1 1, sample_header 2 2]. length (BlockHeader.Hash bh) = HashSize"
    by simp
  have h4: "\<forall>bh\<in>set (stamp sample_clock 0 [sample_header 1 1, sample_header 2 2]).
      MarshalBlockHeader sample_json bh \<noteq> None"
    by (simp add: sample_marshal)
  have rt: "UnmarshalBlockHeader sample_json (the (MarshalBlockHeader sample_json (sample_header 2 2))) =
      Some (sample_header 2 2)"
    by (simp add: sample_marshal sample_unmarshal) (simp add: sample_header_def)
  note t = BlockHeadersInsert_writes
    [where j = sample_json and clock = sample_clock and s = empty_store
       and bhs = "[sample_header 1 1, sample_header 2 2]", OF h1 h2 h3 h4,
     unfolded sample_stamp sample_store_def [symmetric]]
  note ok = t [THEN conjunct1]
  note own = t [THEN conjunct2, THEN conjunct2, THEN conjunct1]
  note missing = t [THEN conjunct2, THEN conjunct2, THEN conjunct2, THEN conjunct1]
  note best = t [THEN conjunct2, THEN conjunct2, THEN conjunct2, THEN conjunct2,
                 THEN conjunct2, THEN conjunct2]
  have b: "BlockHeadersBest sample_json no_faults sample_store = Inr [sample_header 2 2]"
    using best rt by simp
  have "distinct (map BlockHeader.Hash [sample_header 1 1, sample_header 2 2])"
    by (simp add: sample_hash_def)
  with own have "\<forall>bh\<in>set [sample_header 1 1, sample_header 2 2].
      db_get (sample_store BlockHeadersDB) (BlockHeader.Hash bh) = MarshalBlockHeader sample_json bh"
    by (rule mp)
  then have rec1: "db_get (sample_store BlockHeadersDB) (sample_hash 1) =
     MarshalBlockHeader sample_json (sample_header 1 1)"
    by simp
  have "PutUint64 1 @ [0] @ sample_hash 1 \<in>
      (\<lambda>bh. PutUint64 (BlockHeader.Height bh) @ [0] @ BlockHeader.Hash bh) `
        {bh \<in> set [sample_header 1 1, sample_header 2 2]. BlockHeader.Height bh \<noteq> 0}"
    by (rule image_eqI [where x = "sample_header 1 1"]) simp_all
  then have m1: "db_get (sample_store BlocksMissingDB) (PutUint64 1 @ [0] @ sample_hash 1) = Some []"
    using missing [THEN spec, of "PutUint64 1 @ [0] @ sample_hash 1"] by simp
  show ?thesis
    using h1 h2 ok b rec1 m1 by (simp add: sample_marshal)
qed

subsection \<open>\<open>BlockInsert\<close> with a stored header\<close>






lemma sample_block_sel [simp]:
  "Block.Hash (sample_block x) = sample_hash x"
  "MarshalBlock sample_json (sample_block x) = Some [1, 2, 3]"
  by (simp_all add: sample_block_def sample_json_def)





subsection \<open>\<open>handleHeaders\<close>\<close>

lemma length_assigned [simp]: "length (assigned w h msg) = length msg"
  by (induction msg arbitrary: h) simp_all










lemma sample_wire_sel [simp]:
  "PrevBlock (sample_wire p x) = sample_hash p"
  "BlockHash sample_btcd (sample_wire p x) = sample_hash x"
  "Serialize sample_btcd (sample_wire p x) = Some (sample_hash p @ sample_hash x)"
  by (simp_all add: sample_wire_def sample_btcd_def)


subsection \<open>The pending-blocks cache\<close>

lemma blockPeerAdd_Inr:
  assumes "blockPeerAdd now s hash p = Inr s'"
  shows "blocks s' = blocks s @ [(hash, \<lparr>expire = now + 37, peer = p\<rparr>)] \<and>
         hash \<notin> fst ` set (blocks s) \<and> peers s' = peers s"
  using assms by (auto simp: blockPeerAdd_def map_of_eq_None_iff split: if_splits)

lemma rand_loop_Some:
  assumes "rand_loop now s hash ks = Some (p, s')"
  shows "\<exists>bp. blocks s' = blocks s @ [(hash, bp)] \<and> hash \<notin> fst ` set (blocks s) \<and>
           peers s' = peers s"
  using assms
proof (induction ks)
  case Nil
  then show ?case by simp
next
  case (Cons k ks)
  show ?case
  proof (cases "\<exists>v s''. peers s k = Some v \<and> conn v \<and> blockPeerAdd now s hash k = Inr s''")
    case True
    then obtain v s'' where v: "peers s k = Some v" "conn v" "blockPeerAdd now s hash k = Inr s''"
      by blast
    with Cons.prems have "s' = s''" by simp
    then show ?thesis using blockPeerAdd_Inr [OF v(3)] by blast
  next
    case False
    then have "rand_loop now s hash (k # ks) = rand_loop now s hash ks"
      by (auto split: option.splits sum.splits)
    then show ?thesis using Cons by simp
  qed
qed

lemma randPeerWrite_blocks:
  "blocks (snd (randPeerWrite now order write_ok s hash)) = blocks s \<or>
   (length (blocks s) < defaultPendingBlocks \<and> hash \<notin> fst ` set (blocks s) \<and>
    (\<exists>bp. blocks (snd (randPeerWrite now order write_ok s hash)) = blocks s @ [(hash, bp)]))"
proof (cases "length (blocks s) \<ge> defaultPendingBlocks")
  case True
  then show ?thesis by (simp add: randPeerWrite_def)
next
  case False
  show ?thesis
  proof (cases "rand_loop now s hash order")
    case None
    then show ?thesis using False by (simp add: randPeerWrite_def)
  next
    case (Some r)
    obtain p s' where r: "r = (p, s')" by (cases r)
    from rand_loop_Some [OF Some [unfolded r]] show ?thesis
      using False Some r by (auto simp: randPeerWrite_def)
  qed
qed

lemma randPeerWrite_full:
  "length (blocks s) \<ge> defaultPendingBlocks \<Longrightarrow>
     randPeerWrite now order write_ok s hash = (Some errCacheFull, s)"
  by (simp add: randPeerWrite_def)

lemma randPeerWrite_split:
  "randPeerWrite now order write_ok s hash =
     (if length (blocks s) \<ge> defaultPendingBlocks then (Some errCacheFull, s)
      else randPeerWrite_select now order write_ok s hash)"
  by (simp add: randPeerWrite_def randPeerWrite_select_def)

text \<open>
  A call of \<open>randPeerWrite\<close> that runs as one step keeps the bound, and the two deletions
  only remove entries.
\<close>

lemma randPeerWrite_keeps_bound:
  assumes "length (blocks s) \<le> defaultPendingBlocks"
  shows "length (blocks (snd (randPeerWrite now order write_ok s hash))) \<le> defaultPendingBlocks"
  using randPeerWrite_blocks [of now order write_ok s hash] assms by auto

lemma blockPeerExpire_shrinks:
  "length (blocks (fst (blockPeerExpire now s))) \<le> length (blocks s)"
  by (simp add: blockPeerExpire_def Let_def)

lemma handleBlock_delete_shrinks:
  "length (blocks (handleBlock_delete s bhs)) \<le> length (blocks s)"
  by (simp add: handleBlock_delete_def)

subsection \<open>Two calls from \<open>handleInv\<close> at 127 pending blocks\<close>

lemma length_sample_pending [simp]: "length (sample_pending n) = n"
  by (simp add: sample_pending_def)

lemma sample_pending_Suc:
  "sample_pending (Suc n) =
     sample_pending n @ [(replicate (Suc n) CHR ''x'', \<lparr>expire = 37, peer = ''10.0.0.1:8333''\<rparr>)]"
  by (simp add: sample_pending_def)

lemma sample_pending_keys:
  assumes "k \<in> fst ` set (sample_pending n)"
  shows "length k \<le> n \<and> hd k = CHR ''x''"
proof -
  from assms obtain i where "i < n" "k = replicate (Suc i) CHR ''x''"
    by (auto simp: sample_pending_def)
  then show ?thesis by simp
qed

lemma sample_pending_new:
  "map_of (sample_pending n) (replicate (Suc n) CHR ''x'') = None"
  using sample_pending_keys [of "replicate (Suc n) CHR ''x''" n]
  by (auto simp: map_of_eq_None_iff)

lemma sample_pending_new':
  "map_of (sample_pending n) (CHR ''x'' # replicate n CHR ''x'') = None"
  using sample_pending_new [of n] by simp

lemma sample_pending_other:
  "hd k \<noteq> CHR ''x'' \<Longrightarrow> map_of (sample_pending n) k = None"
  using sample_pending_keys [of k n] by (auto simp: map_of_eq_None_iff)

lemma select_adds:
  assumes "peers s ''10.0.0.1:8333'' = Some \<lparr>conn = True\<rparr>" "map_of (blocks s) hash = None"
  shows "snd (randPeerWrite_select 0 [''10.0.0.1:8333''] (\<lambda>p. True) s hash) =
           s\<lparr>blocks := blocks s @ [(hash, \<lparr>expire = 37, peer = ''10.0.0.1:8333''\<rparr>)]\<rparr>"
  using assms by (simp add: randPeerWrite_select_def blockPeerAdd_def)

lemma sample_busy_sel [simp]:
  "peers (sample_busy_server n) ''10.0.0.1:8333'' = Some \<lparr>conn = True\<rparr>"
  "blocks (sample_busy_server n) = sample_pending n"
  by (simp_all add: sample_busy_server_def sample_server_def NewServer_def)

lemma sample_busy_add:
  "(sample_busy_server n)\<lparr>blocks := blocks (sample_busy_server n) @
      [(replicate (Suc n) CHR ''x'', \<lparr>expire = 37, peer = ''10.0.0.1:8333''\<rparr>)]\<rparr> =
   sample_busy_server (Suc n)"
  by (simp add: sample_busy_server_def sample_pending_Suc)

lemma reachable_sample_busy:
  "n < defaultPendingBlocks \<Longrightarrow> reachable (sample_busy_server n) 0"
proof (induction n)
  case 0
  have "reachable (NewServer\<lparr>peers := [''10.0.0.1:8333'' \<mapsto> \<lparr>conn = True\<rparr>]\<rparr>) 0"
    by (intro reachable.intros)
  then show ?case
    by (simp add: sample_busy_server_def sample_server_def sample_pending_def NewServer_def)
next
  case (Suc n)
  then have r: "reachable (sample_busy_server n) 0" by simp
  have room: "\<not> length (blocks (sample_busy_server n)) \<ge> defaultPendingBlocks"
    using Suc.prems by simp
  have new: "map_of (blocks (sample_busy_server n)) (replicate (Suc n) CHR ''x'') = None"
    by (simp add: sample_pending_new')
  have "snd (randPeerWrite 0 [''10.0.0.1:8333''] (\<lambda>p. True) (sample_busy_server n)
           (replicate (Suc n) CHR ''x'')) =
        snd (randPeerWrite_select 0 [''10.0.0.1:8333''] (\<lambda>p. True) (sample_busy_server n)
           (replicate (Suc n) CHR ''x''))"
    using room by (simp only: randPeerWrite_split if_False)
  also have "\<dots> = (sample_busy_server n)\<lparr>blocks := blocks (sample_busy_server n) @
      [(replicate (Suc n) CHR ''x'', \<lparr>expire = 37, peer = ''10.0.0.1:8333''\<rparr>)]\<rparr>"
    using sample_busy_sel(1) new by (rule select_adds)
  also have "\<dots> = sample_busy_server (Suc n)" by (rule sample_busy_add)
  finally have "snd (randPeerWrite 0 [''10.0.0.1:8333''] (\<lambda>p. True) (sample_busy_server n)
           (replicate (Suc n) CHR ''x'')) = sample_busy_server (Suc n)" .
  then show ?case
    using reach_write [OF r, of 0 "[''10.0.0.1:8333'']" "\<lambda>p. True" "replicate (Suc n) CHR ''x''"]
    by (simp only:)
qed

text \<open>
  Claim C8 does not hold of the code. With 127 pending blocks, two calls of
  \<open>randPeerWrite\<close> that come from \<open>handleInv\<close>, which does not hold the mutex, both find
  the cache not full; then each runs its loop, and \<open>blockPeerAdd\<close>, which has no test
  of its own, adds an entry for each: the pending map holds 129 entries, one more than
  \<open>defaultPendingBlocks\<close>.
\<close>

theorem pending_blocks_overfull:
  "reachable (sample_busy_server 127) 0 \<and>
   \<not> length (blocks (sample_busy_server 127)) \<ge> defaultPendingBlocks \<and>
   snd (randPeerWrite_select 0 [''10.0.0.1:8333''] (\<lambda>p. True)
          (snd (randPeerWrite_select 0 [''10.0.0.1:8333''] (\<lambda>p. True) (sample_busy_server 127) ''h1''))
          ''h2'') = sample_overfull_server \<and>
   reachable sample_overfull_server 0 \<and>
   length (blocks sample_overfull_server) = 129 \<and>
   defaultPendingBlocks = 128"
proof -
  define s0 where "s0 = sample_busy_server 127"
  define s1 where "s1 = snd (randPeerWrite_select 0 [''10.0.0.1:8333''] (\<lambda>p. True) s0 ''h1'')"
  define s2 where "s2 = snd (randPeerWrite_select 0 [''10.0.0.1:8333''] (\<lambda>p. True) s1 ''h2'')"
  have r0: "reachable s0 0"
    unfolding s0_def by (rule reachable_sample_busy) (simp add: defaultPendingBlocks_def)
  have room: "\<not> length (blocks s0) \<ge> defaultPendingBlocks"
    by (simp add: s0_def defaultPendingBlocks_def)
  have p0: "peers s0 ''10.0.0.1:8333'' = Some \<lparr>conn = True\<rparr>" by (simp add: s0_def)
  have n0: "map_of (blocks s0) ''h1'' = None" by (simp add: s0_def sample_pending_other)
  have e1: "s1 = s0\<lparr>blocks := blocks s0 @ [(''h1'', \<lparr>expire = 37, peer = ''10.0.0.1:8333''\<rparr>)]\<rparr>"
    unfolding s1_def using p0 n0 by (rule select_adds)
  have p1: "peers s1 ''10.0.0.1:8333'' = Some \<lparr>conn = True\<rparr>" by (simp add: e1 p0)
  have n1: "map_of (blocks s1) ''h2'' = None"
    by (simp add: e1 s0_def sample_pending_other)
  have e2: "s2 = s1\<lparr>blocks := blocks s1 @ [(''h2'', \<lparr>expire = 37, peer = ''10.0.0.1:8333''\<rparr>)]\<rparr>"
    unfolding s2_def using p1 n1 by (rule select_adds)
  have over: "s2 = sample_overfull_server"
    by (simp add: e2 e1 s0_def sample_busy_server_def sample_overfull_server_def)
  have "reachable s0 (Suc (Suc 0))"
    using r0 room by (intro reach_inv_test)
  then have "reachable s1 (Suc 0)" unfolding s1_def by (rule reach_inv_loop)
  then have "reachable s2 0" unfolding s2_def by (rule reach_inv_loop)
  then have r2: "reachable sample_overfull_server 0" by (simp only: over)
  have len: "length (blocks sample_overfull_server) = 129"
    by (simp add: sample_overfull_server_def)
  show ?thesis
    using r0 room over r2 len unfolding s2_def s1_def s0_def
    by (simp add: defaultPendingBlocks_def)
qed

subsection \<open>The peer store\<close>

text \<open>
  Claim C9 as stated fails: \<open>PeersInsert\<close> returns an error and stores nothing, so does
  \<open>PeerDelete\<close>, and \<open>PeersRandom\<close> returns no peer after the insert.
\<close>

theorem peer_store_counterexample:
  "PeersInsert empty_store [sample_peer] = (Inl (Errorf ''PeersInsert''), empty_store) \<and>
   PeerDelete empty_store (Host sample_peer) (Port sample_peer) =
     (Inl (Errorf ''PeerDelete''), empty_store) \<and>
   fst (PeersRandom (snd (PeersInsert empty_store [sample_peer])) 1) = Inr []"
  by (simp add: PeersInsert_def PeerDelete_def PeersRandom_def)

text \<open>
  Claim C9, amended. The peer operations of the database are placeholders: for every
  \<open>n\<close>, \<open>PeersRandom\<close> succeeds and returns no peers; \<open>PeersInsert\<close> and \<open>PeerDelete\<close>
  return an error; none of them changes the store.
\<close>

theorem peer_store_placeholders:
  "PeersRandom s n = (Inr [], s) \<and>
   PeersInsert s batch = (Inl (Errorf ''PeersInsert''), s) \<and>
   PeerDelete s host port = (Inl (Errorf ''PeerDelete''), s)"
  by (simp add: PeersInsert_def PeerDelete_def PeersRandom_def)

end
